theory Spec2Isabelle
  imports Complex_Main "HOL-Library.Sublist"
begin

section \<open>JavaScript primitives used by the reader\<close>

text \<open>
  Strings are lists of characters, numbers that the code uses as positions and sizes are
  integers. \<open>js_slice\<close> is \<^verbatim>\<open>String.prototype.slice(start, end)\<close> (and
  \<^verbatim>\<open>Array.prototype.slice\<close>): a negative index counts from the end, both indices are
  clamped to the length, and an empty result is returned when the clamped start is not
  before the clamped end.
\<close>

definition js_index :: "int \<Rightarrow> int \<Rightarrow> int" where
  "js_index len k = (if k < 0 then max (len + k) 0 else min k len)"

definition js_slice :: "'a list \<Rightarrow> int \<Rightarrow> int \<Rightarrow> 'a list" where
  "js_slice xs start fin =
     (let len = int (length xs);
          from = js_index len start;
          to = js_index len fin
      in take (nat (to - from)) (drop (nat from) xs))"

definition js_slice_from :: "'a list \<Rightarrow> int \<Rightarrow> 'a list" where
  "js_slice_from xs start = js_slice xs start (int (length xs))"

text \<open>Template literals print an integer in decimal, with a leading minus sign.\<close>

definition digit_char :: "nat \<Rightarrow> char" where
  "digit_char d = char_of (48 + d)"

fun show_nat :: "nat \<Rightarrow> string" where
  "show_nat n = (if n < 10 then [digit_char n] else show_nat (n div 10) @ [digit_char (n mod 10)])"

definition show_int :: "int \<Rightarrow> string" where
  "show_int k = (if k < 0 then CHR ''-'' # show_nat (nat (- k)) else show_nat (nat k))"

text \<open>
  A thrown JavaScript error is a value with an optional message; a call of an external
  service returns a value or throws.
\<close>

datatype js_error = JsError "string option"

datatype 'a js_result = Returns 'a | Throws js_error

fun message_text :: "js_error \<Rightarrow> string" where
  "message_text (JsError None) = ''undefined''"
| "message_text (JsError (Some m)) = m"

section \<open>Chunker (htmlToMarkdownTree.ts, htmlToMarkdownChunks)\<close>

text \<open>
  The conversion of HTML to Markdown is done by a library; the chunker is modelled from
  the Markdown text on. The loop \<^verbatim>\<open>for (let i = 0; i < markdown.length; i += stepSize)\<close>
  has no bound of its own, so it is a partial function: \<open>None\<close> is a loop that does not
  return.
\<close>

record MarkdownChunk =
  content :: string
  chunkIndex :: nat
  startChar :: int
  endChar :: int
  totalChunks :: nat

partial_function (option) chunk_loop ::
  "string \<Rightarrow> int \<Rightarrow> int \<Rightarrow> int \<Rightarrow> MarkdownChunk list \<Rightarrow> MarkdownChunk list option" where
  "chunk_loop markdown chunkSize stepSize i chunks =
     (if i < int (length markdown) then
        (let startChar = i;
             endChar = min (i + chunkSize) (int (length markdown));
             chunks' = chunks @
               [\<lparr>content = js_slice markdown startChar endChar, chunkIndex = length chunks,
                 startChar = startChar, endChar = endChar, totalChunks = 0\<rparr>]
         in if endChar \<ge> int (length markdown) then Some chunks'
            else chunk_loop markdown chunkSize stepSize (i + stepSize) chunks')
      else Some chunks)"

declare chunk_loop.simps [code]

definition htmlToMarkdownChunks :: "string \<Rightarrow> int \<Rightarrow> int \<Rightarrow> MarkdownChunk list option" where
  "htmlToMarkdownChunks markdown chunkSize overlap =
     (if int (length markdown) \<le> chunkSize then
        Some [\<lparr>content = markdown, chunkIndex = 0, startChar = 0,
               endChar = int (length markdown), totalChunks = 1\<rparr>]
      else
        (case chunk_loop markdown chunkSize (chunkSize - overlap) 0 [] of
           None \<Rightarrow> None
         | Some chunks \<Rightarrow> Some (map (\<lambda>chunk. chunk\<lparr>totalChunks := length chunks\<rparr>) chunks)))"

text \<open>The span of a chunk, and the characters two neighbouring chunks share.\<close>

definition covers :: "MarkdownChunk \<Rightarrow> int \<Rightarrow> bool" where
  "covers c p = (startChar c \<le> p \<and> p < endChar c)"

definition shared_chars :: "MarkdownChunk \<Rightarrow> MarkdownChunk \<Rightarrow> int" where
  "shared_chars c d = min (endChar c) (endChar d) - max (startChar c) (startChar d)"

text \<open>The chunk object that the loop pushes at offset \<open>i\<close> (used to state its result).\<close>

definition mk_chunk :: "string \<Rightarrow> int \<Rightarrow> nat \<Rightarrow> int \<Rightarrow> MarkdownChunk" where
  "mk_chunk md C idx i =
     \<lparr>content = js_slice md i (min (i + C) (int (length md))), chunkIndex = idx,
      startChar = i, endChar = min (i + C) (int (length md)), totalChunks = 0\<rparr>"

section \<open>Summarizer (generateChunkSummaries)\<close>

record MarkdownChunkWithSummary = MarkdownChunk +
  summary :: string

definition with_summary :: "MarkdownChunk \<Rightarrow> string \<Rightarrow> MarkdownChunkWithSummary" where
  "with_summary chunk s =
     \<lparr>content = content chunk, chunkIndex = chunkIndex chunk, startChar = startChar chunk,
      endChar = endChar chunk, totalChunks = totalChunks chunk, summary = s\<rparr>"

text \<open>
  JavaScript runs the workers of \<^verbatim>\<open>generateChunkSummaries\<close> on one thread: a worker runs
  until its next \<^verbatim>\<open>await generateText(...)\<close>, and nothing else happens until some pending
  call completes. A worker is therefore awaiting the call for one queue item, finished
  (it found the queue empty) or rejected (its call threw). The pool holds the shared queue,
  the pre-sized \<^verbatim>\<open>results\<close> array (a slot is \<open>None\<close> while it is empty), the counter and the
  workers.
\<close>

datatype worker = Awaiting "MarkdownChunk \<times> nat" | Finished | Rejected js_error

fun is_awaiting :: "worker \<Rightarrow> bool" where
  "is_awaiting (Awaiting item) = True"
| "is_awaiting w = False"

record pool =
  queue :: "(MarkdownChunk \<times> nat) list"
  result_slots :: "MarkdownChunkWithSummary option list"
  completed :: nat
  workers :: "worker list"

definition initial_pool :: "MarkdownChunk list \<Rightarrow> pool" where
  "initial_pool chunks =
     \<lparr>queue = zip chunks [0 ..< length chunks],
      result_slots = replicate (length chunks) None,
      completed = 0, workers = []\<rparr>"

text \<open>
  \<^verbatim>\<open>while (queue.length > 0) { const item = queue.shift(); if (item) await generateSummary(...) }\<close>
  up to the next await: the worker takes the head of the queue and issues its call, or
  finishes.
\<close>

definition worker_loop :: "pool \<Rightarrow> worker \<times> pool" where
  "worker_loop p =
     (case queue p of
        [] \<Rightarrow> (Finished, p)
      | item # rest \<Rightarrow> (Awaiting item, p\<lparr>queue := rest\<rparr>))"

fun start_workers :: "nat \<Rightarrow> pool \<Rightarrow> pool" where
  "start_workers 0 p = p"
| "start_workers (Suc k) p =
     (let (w, p') = worker_loop p in start_workers k (p'\<lparr>workers := workers p' @ [w]\<rparr>))"

text \<open>
  The environment decides which pending call completes next and how: \<open>Completion k out\<close>
  completes the call of the \<open>k\<close>-th worker in flight (counted modulo their number) with
  the text \<open>out\<close> returns or the error it throws. On a text the worker writes
  \<^verbatim>\<open>results[index] = {...chunk, summary: text}\<close>, counts, and goes on with its loop; on an
  error its promise rejects.
\<close>

datatype completion = Completion nat "string js_result"

definition in_flight :: "pool \<Rightarrow> nat list" where
  "in_flight p = filter (\<lambda>w. is_awaiting (workers p ! w)) [0 ..< length (workers p)]"

fun complete :: "completion \<Rightarrow> pool \<Rightarrow> pool" where
  "complete (Completion k out) p =
     (if in_flight p = [] then p
      else
        (let w = in_flight p ! (k mod length (in_flight p)) in
         case workers p ! w of
           Awaiting (chunk, index) \<Rightarrow>
             (case out of
                Throws e \<Rightarrow> p\<lparr>workers := (workers p)[w := Rejected e]\<rparr>
              | Returns s \<Rightarrow>
                  (let p1 = p\<lparr>result_slots := (result_slots p)[index := Some (with_summary chunk s)],
                              completed := completed p + 1\<rparr>;
                       (w', p2) = worker_loop p1
                   in p2\<lparr>workers := (workers p2)[w := w']\<rparr>))
         | _ \<Rightarrow> p))"

declare complete.simps [simp del]

text \<open>
  \<^verbatim>\<open>await Promise.all(workers)\<close>: rejected with the error of a rejected worker, fulfilled
  (the function then returns \<^verbatim>\<open>results\<close>) when every worker has finished, pending
  otherwise. \<open>run_pool\<close> lets the calls complete in the order of the schedule until the
  promise settles; \<open>None\<close> is a call of \<^verbatim>\<open>generateChunkSummaries\<close> that has not returned
  when the schedule ends.
\<close>

fun first_rejection :: "worker list \<Rightarrow> js_error option" where
  "first_rejection [] = None"
| "first_rejection (Rejected e # ws) = Some e"
| "first_rejection (w # ws) = first_rejection ws"

definition settled :: "pool \<Rightarrow> (js_error + MarkdownChunkWithSummary option list) option" where
  "settled p =
     (case first_rejection (workers p) of
        Some e \<Rightarrow> Some (Inl e)
      | None \<Rightarrow> if list_all (\<lambda>w. w = Finished) (workers p) then Some (Inr (result_slots p))
                else None)"

fun run_pool :: "completion list \<Rightarrow> pool \<Rightarrow> (js_error + MarkdownChunkWithSummary option list) option" where
  "run_pool [] p = settled p"
| "run_pool (ev # evs) p =
     (case settled p of Some r \<Rightarrow> Some r | None \<Rightarrow> run_pool evs (complete ev p))"

definition generateChunkSummaries ::
  "MarkdownChunk list \<Rightarrow> int \<Rightarrow> completion list
     \<Rightarrow> (js_error + MarkdownChunkWithSummary option list) option" where
  "generateChunkSummaries chunks maxConcurrency schedule =
     run_pool schedule
       (start_workers (nat (min maxConcurrency (int (length chunks)))) (initial_pool chunks))"

text \<open>
  For the statements: a completion that returns a text, the number of calls still to
  complete, a result array that holds in slot \<open>i\<close> the \<open>i\<close>-th chunk with some summary, and
  the invariant of the pool while no call has failed.
\<close>

fun is_success :: "completion \<Rightarrow> bool" where
  "is_success (Completion k (Returns s)) = True"
| "is_success (Completion k (Throws e)) = False"

definition remaining :: "pool \<Rightarrow> nat" where
  "remaining p = length (queue p) + length (filter is_awaiting (workers p))"

definition in_chunk_order :: "MarkdownChunk list \<Rightarrow> MarkdownChunkWithSummary option list \<Rightarrow> bool" where
  "in_chunk_order chunks rs =
     (length rs = length chunks
      \<and> (\<forall>i < length chunks. \<exists>s. rs ! i = Some (with_summary (chunks ! i) s)))"

definition base_inv :: "MarkdownChunk list \<Rightarrow> pool \<Rightarrow> bool" where
  "base_inv chunks p =
     (length (result_slots p) = length chunks
      \<and> (\<forall>c i. (c, i) \<in> set (queue p) \<longrightarrow> i < length chunks \<and> c = chunks ! i)
      \<and> (\<forall>c i. Awaiting (c, i) \<in> set (workers p) \<longrightarrow> i < length chunks \<and> c = chunks ! i)
      \<and> (\<forall>i < length chunks.
            (\<exists>s. result_slots p ! i = Some (with_summary (chunks ! i) s))
            \<or> i \<in> snd ` set (queue p)
            \<or> (\<exists>c. Awaiting (c, i) \<in> set (workers p)))
      \<and> (queue p \<noteq> [] \<longrightarrow> list_all is_awaiting (workers p))
      \<and> (\<forall>e. Rejected e \<notin> set (workers p)))"

definition pool_inv :: "MarkdownChunk list \<Rightarrow> pool \<Rightarrow> bool" where
  "pool_inv chunks p = (base_inv chunks p \<and> (workers p \<noteq> [] \<or> chunks = []))"

text \<open>
  The calls of \<^verbatim>\<open>generateSummary\<close> that complete while the schedule is processed, in the
  order of their completion: the queue item (chunk and index) the call was issued for,
  and the outcome of its text-generation call. \<open>write_slot\<close> is the assignment
  \<^verbatim>\<open>results[index] = {...chunk, summary: text}\<close> of a call that returned.
\<close>

fun write_slot ::
  "MarkdownChunk list \<Rightarrow> nat \<times> string js_result
     \<Rightarrow> MarkdownChunkWithSummary option list \<Rightarrow> MarkdownChunkWithSummary option list" where
  "write_slot chunks (i, Returns s) slots = slots[i := Some (with_summary (chunks ! i) s)]"
| "write_slot chunks (i, Throws e) slots = slots"

fun call_log ::
  "completion list \<Rightarrow> pool \<Rightarrow> (MarkdownChunk \<times> nat \<times> string js_result) list" where
  "call_log [] p = []"
| "call_log (Completion k out # evs) p =
     (if settled p \<noteq> None \<or> in_flight p = [] then []
      else
        (case workers p ! (in_flight p ! (k mod length (in_flight p))) of
           Awaiting (chunk, index) \<Rightarrow>
             (chunk, index, out) # call_log evs (complete (Completion k out) p)
         | _ \<Rightarrow> []))"

definition completed_calls ::
  "MarkdownChunk list \<Rightarrow> int \<Rightarrow> completion list
     \<Rightarrow> (MarkdownChunk \<times> nat \<times> string js_result) list" where
  "completed_calls chunks maxConcurrency schedule =
     call_log schedule
       (start_workers (nat (min maxConcurrency (int (length chunks)))) (initial_pool chunks))"

text \<open>The three chunks of a twelve-character text, as an example input.\<close>

definition example_chunks :: "MarkdownChunk list" where
  "example_chunks =
     [\<lparr>content = ''abcde'', chunkIndex = 0, startChar = 0, endChar = 5, totalChunks = 3\<rparr>,
      \<lparr>content = ''efghi'', chunkIndex = 1, startChar = 4, endChar = 9, totalChunks = 3\<rparr>,
      \<lparr>content = ''ijkl'', chunkIndex = 2, startChar = 8, endChar = 12, totalChunks = 3\<rparr>]"

section \<open>Session state: events and counters\<close>

text \<open>
  \<^verbatim>\<open>emitEvent(event, data)\<close> hands an event name and a payload to the caller's sink; the
  session records them in order.
\<close>

record session_stats =
  tool_calls :: nat
  content_reads :: nat
  figure_analyses :: nat
  search_iterations :: nat

datatype tool_call_data =
    ReadContentCall int int
  | ReadFigureCall string string
  | ReadTableCall string
  | SearchContentCall string int

datatype payload =
    StatusData string string
  | StatusDocumentData string string nat
  | StatusStatsData string string session_stats
  | ToolCallData tool_call_data
  | ContentReadData int int nat
  | FigureAnalyzedData string string string nat
  | TableExtractedData string nat
  | SearchCompleteData string nat
  | AnswerData string
  | MetadataData int session_stats
  | CompleteData string
  | ErrorData string

type_synonym event = "string \<times> payload"

record session =
  events :: "event list"
  stats :: session_stats

definition emitEvent :: "string \<Rightarrow> payload \<Rightarrow> session \<Rightarrow> session" where
  "emitEvent name data st = st\<lparr>events := events st @ [(name, data)]\<rparr>"

definition new_session :: session where
  "new_session =
     \<lparr>events = [],
      stats = \<lparr>tool_calls = 0, content_reads = 0, figure_analyses = 0, search_iterations = 0\<rparr>\<rparr>"

section \<open>Tools (createAgenticReaderTools)\<close>

subsection \<open>readContent\<close>

record read_metadata =
  startPosition :: int
  endPosition :: int
  contentLength :: nat
  totalDocumentLength :: nat
  hasMoreBefore :: bool
  hasMoreAfter :: bool

datatype read_result = ReadFailure string | ReadSuccess string read_metadata

definition readContent :: "string \<Rightarrow> int \<Rightarrow> int \<Rightarrow> session \<Rightarrow> read_result \<times> session" where
  "readContent fullContent startPos endPos st0 =
     (let st1 = st0\<lparr>stats := (stats st0)\<lparr>tool_calls := tool_calls (stats st0) + 1,
                                           content_reads := content_reads (stats st0) + 1\<rparr>\<rparr>;
          st2 = emitEvent ''tool_call'' (ToolCallData (ReadContentCall startPos endPos)) st1;
          len = int (length fullContent)
      in
        if startPos < 0 \<or> startPos > len then
          (ReadFailure (''Invalid startPosition '' @ show_int startPos
             @ ''. Document length is '' @ show_int len @ '' characters.''), st2)
        else if endPos < 0 \<or> endPos > len then
          (ReadFailure (''Invalid endPosition '' @ show_int endPos
             @ ''. Document length is '' @ show_int len @ '' characters.''), st2)
        else if startPos \<ge> endPos then
          (ReadFailure (''startPosition ('' @ show_int startPos
             @ '') must be less than endPosition ('' @ show_int endPos @ '').''), st2)
        else
          (let text = js_slice fullContent startPos endPos;
               st3 = emitEvent ''content_read''
                       (ContentReadData startPos endPos (length text)) st2
           in (ReadSuccess text
                 \<lparr>startPosition = startPos, endPosition = endPos,
                  contentLength = length text, totalDocumentLength = length fullContent,
                  hasMoreBefore = (startPos > 0), hasMoreAfter = (endPos < len)\<rparr>, st3)))"

subsection \<open>readFigure and readTable\<close>

text \<open>The outcome of the vision call is supplied by the environment.\<close>

datatype figure_result = FigureFailure string | FigureSuccess string string string

definition readFigure ::
  "string \<Rightarrow> string \<Rightarrow> string js_result \<Rightarrow> session \<Rightarrow> figure_result \<times> session" where
  "readFigure imageUrl query vision st0 =
     (let st1 = st0\<lparr>stats := (stats st0)\<lparr>tool_calls := tool_calls (stats st0) + 1,
                                           figure_analyses := figure_analyses (stats st0) + 1\<rparr>\<rparr>;
          st2 = emitEvent ''tool_call'' (ToolCallData (ReadFigureCall imageUrl query)) st1
      in case vision of
           Returns text \<Rightarrow>
             (FigureSuccess imageUrl query text,
              emitEvent ''figure_analyzed''
                (FigureAnalyzedData imageUrl query text (length text)) st2)
         | Throws e \<Rightarrow>
             (FigureFailure (''Failed to analyze figure: '' @ message_text e), st2))"

datatype table_result = TableFailure string | TableSuccess string string

definition readTable ::
  "string \<Rightarrow> string js_result \<Rightarrow> session \<Rightarrow> table_result \<times> session" where
  "readTable imageUrl vision st0 =
     (let st1 = st0\<lparr>stats := (stats st0)\<lparr>tool_calls := tool_calls (stats st0) + 1\<rparr>\<rparr>;
          st2 = emitEvent ''tool_call'' (ToolCallData (ReadTableCall imageUrl)) st1
      in case vision of
           Returns text \<Rightarrow>
             (TableSuccess imageUrl text,
              emitEvent ''table_extracted'' (TableExtractedData imageUrl (length text)) st2)
         | Throws e \<Rightarrow>
             (TableFailure (''Failed to extract table: '' @ message_text e), st2))"

subsection \<open>searchContent\<close>

text \<open>
  \<^verbatim>\<open>toLowerCase\<close> on the characters below 256 (the letters A to Z and the capital letters
  of Latin-1 move up by 32; a character beyond this range, whose lower case can have
  another length, is outside the model), and \<^verbatim>\<open>indexOf(searchString, position)\<close>: the
  least index at or after the clamped position where the search string occurs, or -1.
\<close>

definition toLowerCase_char :: "char \<Rightarrow> char" where
  "toLowerCase_char c =
     (let n = (of_char c :: nat)
      in if (65 \<le> n \<and> n \<le> 90) \<or> (192 \<le> n \<and> n \<le> 222 \<and> n \<noteq> 215)
         then char_of (n + 32) else c)"

definition toLowerCase :: "string \<Rightarrow> string" where
  "toLowerCase s = map toLowerCase_char s"

fun indexOf_aux :: "'a list \<Rightarrow> 'a list \<Rightarrow> nat \<Rightarrow> int" where
  "indexOf_aux s [] p = (if s = [] then int p else - 1)"
| "indexOf_aux s (x # xs) p = (if prefix s (x # xs) then int p else indexOf_aux s xs (Suc p))"

definition indexOf :: "'a list \<Rightarrow> 'a list \<Rightarrow> int \<Rightarrow> int" where
  "indexOf str s pos =
     (let k = nat (min (max pos 0) (int (length str))) in indexOf_aux s (drop k str) k)"

record search_hit =
  position :: int
  hit_context :: string

record search_result =
  success :: bool
  searchText :: string
  resultsFound :: nat
  results :: "search_hit list"
  hasMore :: bool

function search_loop ::
  "string \<Rightarrow> string \<Rightarrow> int \<Rightarrow> search_hit list \<Rightarrow> int \<Rightarrow> search_hit list \<times> int" where
  "search_loop fullContent text maxResults hits currentPos =
     (if int (length hits) < maxResults \<and> currentPos < int (length fullContent) then
        (let foundPos = indexOf (toLowerCase fullContent) (toLowerCase text) currentPos in
         if foundPos = - 1 then (hits, currentPos)
         else
           (let contextStart = max 0 (foundPos - 50);
                contextEnd = min (int (length fullContent)) (foundPos + int (length text) + 50);
                ctx = js_slice fullContent contextStart contextEnd
            in search_loop fullContent text maxResults
                 (hits @ [\<lparr>position = foundPos, hit_context = ''...'' @ ctx @ ''...''\<rparr>])
                 (foundPos + int (length text))))
      else (hits, currentPos))"
  by pat_completeness auto
termination
  by (relation "measure (\<lambda>(fullContent, text, maxResults, hits, currentPos).
        nat (maxResults - int (length hits)))") auto

definition searchContent ::
  "string \<Rightarrow> string \<Rightarrow> int option \<Rightarrow> session \<Rightarrow> search_result \<times> session" where
  "searchContent fullContent text maxResultsOpt st0 =
     (let maxResults = (case maxResultsOpt of None \<Rightarrow> 5 | Some m \<Rightarrow> m);
          st1 = st0\<lparr>stats := (stats st0)\<lparr>tool_calls := tool_calls (stats st0) + 1\<rparr>\<rparr>;
          st2 = emitEvent ''tool_call'' (ToolCallData (SearchContentCall text maxResults)) st1;
          (hits, currentPos) = search_loop fullContent text maxResults [] 0;
          st3 = emitEvent ''search_complete'' (SearchCompleteData text (length hits)) st2
      in (\<lparr>success = True, searchText = text, resultsFound = length hits, results = hits,
           hasMore = (currentPos < int (length fullContent)
                      \<and> indexOf (toLowerCase fullContent) (toLowerCase text) currentPos \<noteq> - 1)\<rparr>,
          st3))"




declare search_loop.simps [simp del]



section \<open>Exploration controller: history truncation (agenticReader.ts, prepareStep)\<close>

text \<open>
  \<^verbatim>\<open>prepareStep\<close> returns an override \<^verbatim>\<open>{messages: [messages[0], ...messages.slice(-20)]}\<close>
  when more than 20 messages have accumulated and the empty object otherwise; with no
  override the reasoning call is presented the accumulated messages themselves.
\<close>

definition prepareStep :: "'m list \<Rightarrow> 'm list option" where
  "prepareStep messages =
     (if length messages > 20 then Some ((messages ! 0) # js_slice_from messages (- 20))
      else None)"

definition presented_messages :: "'m list \<Rightarrow> 'm list" where
  "presented_messages messages =
     (case prepareStep messages of Some ms \<Rightarrow> ms | None \<Rightarrow> messages)"

section \<open>Benchmark: numerical comparison (compareNumerical)\<close>

text \<open>
  \<^verbatim>\<open>parseFloat\<close> is a parameter \<open>pf\<close>: \<open>None\<close> stands for NaN. The error field is
  \<^verbatim>\<open>null\<close>, NaN or a number. A division by a zero ground truth gives an infinity or NaN
  in JavaScript, for which the comparison \<^verbatim>\<open><= 0.01\<close> is false.
\<close>

datatype js_error_field = Null | NaN | Num real

record comparison =
  matches :: bool
  error_field :: js_error_field

definition compareNumerical ::
  "(string \<Rightarrow> real option) \<Rightarrow> string \<Rightarrow> string \<Rightarrow> real \<Rightarrow> comparison" where
  "compareNumerical pf extracted groundTruth tolerance =
     (if groundTruth = [] then \<lparr>matches = True, error_field = Null\<rparr>
      else
        let extractedNum = pf extracted; groundTruthNum = pf groundTruth in
        if extractedNum = None \<and> groundTruthNum \<noteq> None
        then \<lparr>matches = False, error_field = Null\<rparr>
        else
          (case (extractedNum, groundTruthNum) of
             (Some x, Some y) \<Rightarrow>
               let err = x - y in
               \<lparr>matches = (\<bar>err\<bar> \<le> tolerance \<or> (y \<noteq> 0 \<and> \<bar>err / y\<bar> \<le> 0.01)),
                error_field = Num err\<rparr>
           | _ \<Rightarrow> \<lparr>matches = False, error_field = NaN\<rparr>))"

definition compareNumerical_default ::
  "(string \<Rightarrow> real option) \<Rightarrow> string \<Rightarrow> string \<Rightarrow> comparison" where
  "compareNumerical_default pf extracted groundTruth =
     compareNumerical pf extracted groundTruth 0.1"

section \<open>Exploration controller: the session (agenticReaderWithEvents)\<close>

text \<open>
  The sink \<^verbatim>\<open>emitEvent\<close> is a function of the caller and can throw. Whether a call throws
  is decided by the events the sink was handed before and by the event: \<open>None\<close> when the
  call returns, the thrown value otherwise. The session records every event handed to
  the sink, the one on which the sink throws too. A thrown value is \<^verbatim>\<open>undefined\<close>,
  \<^verbatim>\<open>null\<close>, or any other value, of which the code reads the \<^verbatim>\<open>message\<close> property only.
  Reading \<^verbatim>\<open>error.message\<close> of \<^verbatim>\<open>undefined\<close> or \<^verbatim>\<open>null\<close> throws a TypeError (its message in
  the wording of Node).
\<close>

datatype thrown = ThrownUndefined | ThrownNull | Thrown js_error

type_synonym sink = "event list \<Rightarrow> event \<Rightarrow> thrown option"

definition emit :: "sink \<Rightarrow> string \<Rightarrow> payload \<Rightarrow> session \<Rightarrow> thrown option \<times> session" where
  "emit snk name data st = (snk (events st) (name, data), emitEvent name data st)"

definition type_error :: "string \<Rightarrow> thrown" where
  "type_error v =
     Thrown (JsError (Some (''Cannot read properties of '' @ v @ '' (reading 'message')'')))"

fun read_message :: "thrown \<Rightarrow> thrown + string option" where
  "read_message ThrownUndefined = Inl (type_error ''undefined'')"
| "read_message ThrownNull = Inl (type_error ''null'')"
| "read_message (Thrown (JsError m)) = Inr m"

text \<open>
  The tools as the reasoning call runs them (\<^verbatim>\<open>execute\<close>), with the sink of the session:
  \<open>Some v\<close> when \<^verbatim>\<open>execute\<close> throws \<open>v\<close>. The counters are updated before the first event.
  The \<^verbatim>\<open>tool_call\<close> event of every tool, and the completion events of \<^verbatim>\<open>readContent\<close> and
  \<^verbatim>\<open>searchContent\<close>, are emitted outside any \<^verbatim>\<open>try\<close>: a throw of the sink leaves
  \<^verbatim>\<open>execute\<close>. The completion events of \<^verbatim>\<open>readFigure\<close> and \<^verbatim>\<open>readTable\<close> are emitted inside
  the tool's \<^verbatim>\<open>try\<close>: its \<^verbatim>\<open>catch\<close> reads \<^verbatim>\<open>error.message\<close> and returns a failure.
\<close>

definition execute_readContent ::
  "sink \<Rightarrow> string \<Rightarrow> int \<Rightarrow> int \<Rightarrow> session \<Rightarrow> thrown option \<times> session" where
  "execute_readContent snk fullContent startPos endPos st0 =
     (let st1 = st0\<lparr>stats := (stats st0)\<lparr>tool_calls := tool_calls (stats st0) + 1,
                                           content_reads := content_reads (stats st0) + 1\<rparr>\<rparr>;
          len = int (length fullContent)
      in case emit snk ''tool_call'' (ToolCallData (ReadContentCall startPos endPos)) st1 of
           (Some v, st2) \<Rightarrow> (Some v, st2)
         | (None, st2) \<Rightarrow>
             if startPos < 0 \<or> startPos > len then (None, st2)
             else if endPos < 0 \<or> endPos > len then (None, st2)
             else if startPos \<ge> endPos then (None, st2)
             else emit snk ''content_read''
                    (ContentReadData startPos endPos
                       (length (js_slice fullContent startPos endPos))) st2)"

definition tool_catch :: "thrown option \<times> session \<Rightarrow> thrown option \<times> session" where
  "tool_catch r =
     (case r of
        (None, st) \<Rightarrow> (None, st)
      | (Some v, st) \<Rightarrow>
          (case read_message v of Inl t \<Rightarrow> (Some t, st) | Inr m \<Rightarrow> (None, st)))"

definition execute_readFigure ::
  "sink \<Rightarrow> string \<Rightarrow> string \<Rightarrow> string js_result \<Rightarrow> session \<Rightarrow> thrown option \<times> session" where
  "execute_readFigure snk imageUrl query vision st0 =
     (let st1 = st0\<lparr>stats := (stats st0)\<lparr>tool_calls := tool_calls (stats st0) + 1,
                                           figure_analyses := figure_analyses (stats st0) + 1\<rparr>\<rparr>
      in case emit snk ''tool_call'' (ToolCallData (ReadFigureCall imageUrl query)) st1 of
           (Some v, st2) \<Rightarrow> (Some v, st2)
         | (None, st2) \<Rightarrow>
             (case vision of
                Returns text \<Rightarrow>
                  tool_catch (emit snk ''figure_analyzed''
                     (FigureAnalyzedData imageUrl query text (length text)) st2)
              | Throws e \<Rightarrow> (None, st2)))"

definition execute_readTable ::
  "sink \<Rightarrow> string \<Rightarrow> string js_result \<Rightarrow> session \<Rightarrow> thrown option \<times> session" where
  "execute_readTable snk imageUrl vision st0 =
     (let st1 = st0\<lparr>stats := (stats st0)\<lparr>tool_calls := tool_calls (stats st0) + 1\<rparr>\<rparr>
      in case emit snk ''tool_call'' (ToolCallData (ReadTableCall imageUrl)) st1 of
           (Some v, st2) \<Rightarrow> (Some v, st2)
         | (None, st2) \<Rightarrow>
             (case vision of
                Returns text \<Rightarrow>
                  tool_catch (emit snk ''table_extracted''
                     (TableExtractedData imageUrl (length text)) st2)
              | Throws e \<Rightarrow> (None, st2)))"

definition execute_searchContent ::
  "sink \<Rightarrow> string \<Rightarrow> string \<Rightarrow> int option \<Rightarrow> session \<Rightarrow> thrown option \<times> session" where
  "execute_searchContent snk fullContent needle maxResultsOpt st0 =
     (let maxResults = (case maxResultsOpt of None \<Rightarrow> 5 | Some m \<Rightarrow> m);
          st1 = st0\<lparr>stats := (stats st0)\<lparr>tool_calls := tool_calls (stats st0) + 1\<rparr>\<rparr>
      in case emit snk ''tool_call'' (ToolCallData (SearchContentCall needle maxResults)) st1 of
           (Some v, st2) \<Rightarrow> (Some v, st2)
         | (None, st2) \<Rightarrow>
             emit snk ''search_complete''
               (SearchCompleteData needle
                  (length (fst (search_loop fullContent needle maxResults [] 0)))) st2)"

text \<open>
  The reasoning call \<^verbatim>\<open>generateText({tools, system, prompt, stopWhen, prepareStep})\<close> is
  external. What the controller sees of it is the sequence of tool invocations it makes
  (the vision calls of the figure and table tools have their own outcomes), what it does
  when \<^verbatim>\<open>execute\<close> throws (\<open>Some v\<close>: it throws \<open>v\<close> itself; \<open>None\<close>: it goes on), and how it
  ends: with the final text and the number of steps, or with a thrown value. The system
  prompt built from the question and the chunk summaries is an input of that call only.
\<close>

datatype tool_invocation =
    InvokeReadContent int int
  | InvokeReadFigure string string "string js_result"
  | InvokeReadTable string "string js_result"
  | InvokeSearchContent string "int option"

fun execute :: "sink \<Rightarrow> string \<Rightarrow> tool_invocation \<Rightarrow> session \<Rightarrow> thrown option \<times> session" where
  "execute snk fullContent (InvokeReadContent startPos endPos) st =
     execute_readContent snk fullContent startPos endPos st"
| "execute snk fullContent (InvokeReadFigure imageUrl query vision) st =
     execute_readFigure snk imageUrl query vision st"
| "execute snk fullContent (InvokeReadTable imageUrl vision) st =
     execute_readTable snk imageUrl vision st"
| "execute snk fullContent (InvokeSearchContent needle maxResultsOpt) st =
     execute_searchContent snk fullContent needle maxResultsOpt st"

datatype reasoning_end = Answered string nat | Failed thrown

record reasoning_run =
  tool_trace :: "tool_invocation list"
  on_tool_throw :: "thrown \<Rightarrow> thrown option"
  reasoning_outcome :: reasoning_end

fun reasoning_call ::
  "sink \<Rightarrow> string \<Rightarrow> (thrown \<Rightarrow> thrown option) \<Rightarrow> reasoning_end \<Rightarrow> tool_invocation list
     \<Rightarrow> session \<Rightarrow> reasoning_end \<times> session" where
  "reasoning_call snk fullContent policy ending [] st = (ending, st)"
| "reasoning_call snk fullContent policy ending (call # calls) st =
     (case execute snk fullContent call st of
        (None, st') \<Rightarrow> reasoning_call snk fullContent policy ending calls st'
      | (Some v, st') \<Rightarrow>
          (case policy v of
             Some v' \<Rightarrow> (Failed v', st')
           | None \<Rightarrow> reasoning_call snk fullContent policy ending calls st'))"

text \<open>
  The options and the controller. The elapsed time \<^verbatim>\<open>Date.now() - startTime\<close> is supplied
  by the environment. In the \<^verbatim>\<open>try\<close> block every statement runs only if the one before has
  not thrown (\<open>and_then\<close>); a throw of the sink or of the reasoning call goes to the \<^verbatim>\<open>catch\<close>
  block, which evaluates \<^verbatim>\<open>error.message || 'An error occurred during reading'\<close> and hands
  the \<^verbatim>\<open>error\<close> event to the sink. The promise of the function is fulfilled, or rejected
  with what the \<^verbatim>\<open>catch\<close> block throws.
\<close>

record AgenticReaderOptions =
  max_iterations :: "nat option"
  model :: "string option"
  include_metadata :: "bool option"

datatype promise_end = Fulfilled | RejectedWith thrown

definition and_then ::
  "thrown option \<times> session \<Rightarrow> (session \<Rightarrow> thrown option \<times> session) \<Rightarrow> thrown option \<times> session" where
  "and_then r rest = (case r of (None, st) \<Rightarrow> rest st | (Some v, st) \<Rightarrow> (Some v, st))"

definition try_block ::
  "sink \<Rightarrow> string \<Rightarrow> AgenticReaderOptions \<Rightarrow> reasoning_run \<Rightarrow> int \<Rightarrow> session
     \<Rightarrow> thrown option \<times> session" where
  "try_block snk fullContent options run elapsed st0 =
     and_then (emit snk ''status''
                 (StatusData ''starting'' ''Initializing agentic reader...'') st0) (\<lambda>st1.
     and_then (emit snk ''status''
                 (StatusDocumentData ''document_loaded''
                    (''Document loaded: '' @ show_nat (length fullContent) @ '' characters'')
                    (length fullContent)) st1) (\<lambda>st2.
     and_then (emit snk ''status''
                 (StatusData ''exploring'' ''Agent is exploring the document...'') st2) (\<lambda>st3.
     case reasoning_call snk fullContent (on_tool_throw run) (reasoning_outcome run)
            (tool_trace run) st3 of
       (Failed v, st4) \<Rightarrow> (Some v, st4)
     | (Answered answer steps, st4) \<Rightarrow>
         (let st5 = st4\<lparr>stats := (stats st4)\<lparr>search_iterations := steps\<rparr>\<rparr> in
          and_then (emit snk ''status''
                      (StatusStatsData ''exploration_complete''
                         (''Agent completed exploration in '' @ show_nat steps @ '' steps'')
                         (stats st5)) st5) (\<lambda>st6.
          and_then (emit snk ''answer'' (AnswerData answer) st6) (\<lambda>st7.
          and_then (if (case include_metadata options of None \<Rightarrow> False | Some b \<Rightarrow> b)
                    then emit snk ''metadata'' (MetadataData elapsed (stats st7)) st7
                    else (None, st7)) (\<lambda>st8.
          emit snk ''complete''
            (CompleteData ''Agentic reading completed successfully'') st8)))))))"

definition catch_block :: "sink \<Rightarrow> thrown \<Rightarrow> session \<Rightarrow> promise_end \<times> session" where
  "catch_block snk error st =
     (case read_message error of
        Inl t \<Rightarrow> (RejectedWith t, st)
      | Inr m \<Rightarrow>
          (case emit snk ''error''
                  (ErrorData (case m of
                                None \<Rightarrow> ''An error occurred during reading''
                              | Some msg \<Rightarrow> if msg = [] then ''An error occurred during reading''
                                            else msg)) st of
             (None, st') \<Rightarrow> (Fulfilled, st')
           | (Some v, st') \<Rightarrow> (RejectedWith v, st')))"

definition agenticReaderWithEvents ::
  "string \<Rightarrow> string \<Rightarrow> MarkdownChunkWithSummary list \<Rightarrow> sink \<Rightarrow> AgenticReaderOptions
     \<Rightarrow> reasoning_run \<Rightarrow> int \<Rightarrow> promise_end \<times> session" where
  "agenticReaderWithEvents question fullContent chunksWithSummaries snk options run elapsed =
     (case try_block snk fullContent options run elapsed new_session of
        (None, st) \<Rightarrow> (Fulfilled, st)
      | (Some error, st) \<Rightarrow> catch_block snk error st)"

text \<open>
  The number of events of a given name that a session has handed to the sink, and the
  sink that never throws.
\<close>

definition count_events :: "string \<Rightarrow> session \<Rightarrow> nat" where
  "count_events name st = length (filter (\<lambda>ev. fst ev = name) (events st))"

definition accepting :: sink where
  "accepting history ev = None"

definition throws_on :: "string \<Rightarrow> thrown \<Rightarrow> sink" where
  "throws_on name v history ev = (if fst ev = name then Some v else None)"

section \<open>Basic facts about the primitives\<close>


lemma js_slice_from_last:
  "0 < n \<Longrightarrow> n \<le> length xs \<Longrightarrow> js_slice_from xs (- int n) = drop (length xs - n) xs"
  by (auto simp: js_slice_from_def js_slice_def js_index_def Let_def
      nat_diff_distrib' of_nat_diff)

lemma sublist_mid: "sublist m (a @ b @ c @ m @ d)"
proof -
  have "a @ b @ c @ m @ d = (a @ b @ c) @ m @ d" by simp
  then show ?thesis unfolding sublist_def by blast
qed

lemma js_slice_valid:
  "0 \<le> s \<Longrightarrow> s < e \<Longrightarrow> e \<le> int (length xs) \<Longrightarrow>
   js_slice xs s e = take (nat (e - s)) (drop (nat s) xs) \<and> length (js_slice xs s e) = nat (e - s)"
  by (auto simp: js_slice_def js_index_def Let_def)

subsection \<open>The chunk loop\<close>

lemma chunk_loop_step:
  "i < int (length md) \<Longrightarrow>
   chunk_loop md C s i acc =
     (if i + C \<ge> int (length md) then Some (acc @ [mk_chunk md C (length acc) i])
      else chunk_loop md C s (i + s) (acc @ [mk_chunk md C (length acc) i]))"
  by (subst chunk_loop.simps) (simp add: Let_def mk_chunk_def)

lemma chunk_loop_exit: "\<not> i < int (length md) \<Longrightarrow> chunk_loop md C s i acc = Some acc"
  by (subst chunk_loop.simps) simp

lemma chunk_loop_run:
  assumes "0 < s" "s \<le> C"
  shows "0 \<le> i \<Longrightarrow> i < int (length md) \<Longrightarrow>
     \<exists>cs. chunk_loop md C s i acc = Some (acc @ cs) \<and> cs \<noteq> []
        \<and> (\<forall>k < length cs. cs ! k = mk_chunk md C (length acc + k) (i + int k * s))
        \<and> (\<forall>k. Suc k < length cs \<longrightarrow> i + int k * s + C < int (length md))
        \<and> int (length md) \<le> i + int (length cs - 1) * s + C"
proof (induction "nat (int (length md) - i)" arbitrary: i acc rule: less_induct)
  case less
  let ?L = "int (length md)"
  let ?c = "mk_chunk md C (length acc) i"
  show ?case
  proof (cases "i + C \<ge> ?L")
    case True
    then have "chunk_loop md C s i acc = Some (acc @ [?c])"
      using less.prems by (simp add: chunk_loop_step)
    then show ?thesis using True by (intro exI [of _ "[?c]"]) simp
  next
    case False
    then have lt: "i + s < ?L" using assms by linarith
    have "nat (?L - (i + s)) < nat (?L - i)" using assms less.prems by linarith
    from less.hyps [OF this, of "acc @ [?c]"] lt less.prems assms
    obtain cs where cs:
      "chunk_loop md C s (i + s) (acc @ [?c]) = Some ((acc @ [?c]) @ cs)" "cs \<noteq> []"
      "\<forall>k < length cs. cs ! k = mk_chunk md C (length (acc @ [?c]) + k) (i + s + int k * s)"
      "\<forall>k. Suc k < length cs \<longrightarrow> i + s + int k * s + C < ?L"
      "?L \<le> i + s + int (length cs - 1) * s + C"
      by force
    have run: "chunk_loop md C s i acc = Some (acc @ (?c # cs))"
      using False less.prems cs(1) by (simp add: chunk_loop_step)
    have nth: "\<forall>k < length (?c # cs). (?c # cs) ! k = mk_chunk md C (length acc + k) (i + int k * s)"
    proof (intro allI impI)
      fix k assume "k < length (?c # cs)"
      then show "(?c # cs) ! k = mk_chunk md C (length acc + k) (i + int k * s)"
        using cs(3) by (cases k) (simp_all add: algebra_simps)
    qed
    have mid: "\<forall>k. Suc k < length (?c # cs) \<longrightarrow> i + int k * s + C < ?L"
    proof (intro allI impI)
      fix k assume "Suc k < length (?c # cs)"
      then show "i + int k * s + C < ?L"
        using cs(4) False by (cases k) (simp_all add: algebra_simps)
    qed
    have fin: "?L \<le> i + int (length (?c # cs) - 1) * s + C"
      using cs(2,5) by (cases cs) (simp_all add: algebra_simps)
    from run nth mid fin show ?thesis by (intro exI [of _ "?c # cs"]) simp
  qed
qed

lemma chain_cover:
  fixes cs :: "MarkdownChunk list"
  assumes "cs \<noteq> []"
    and "\<forall>k. Suc k < length cs \<longrightarrow> startChar (cs ! Suc k) \<le> endChar (cs ! k)"
    and "startChar (cs ! 0) \<le> p" and "p < endChar (last cs)"
  shows "\<exists>c \<in> set cs. covers c p"
  using assms
proof (induction cs)
  case Nil
  then show ?case by simp
next
  case (Cons c cs)
  show ?case
  proof (cases "p < endChar c")
    case True
    then show ?thesis using Cons.prems(3) by (auto simp: covers_def)
  next
    case False
    then have ne: "cs \<noteq> []" using Cons.prems(4) by (cases cs) auto
    have a: "\<forall>k. Suc k < length cs \<longrightarrow> startChar (cs ! Suc k) \<le> endChar (cs ! k)"
      using Cons.prems(2) by force
    have b: "startChar (cs ! 0) \<le> p"
      using Cons.prems(2) [rule_format, of 0] ne False by (cases cs) auto
    have c: "p < endChar (last cs)" using Cons.prems(4) ne by simp
    from Cons.IH [OF ne a b c] show ?thesis by auto
  qed
qed

text \<open>
  With a step that is not positive the loop does not return on a non-empty text longer
  than the chunk size: the offset never grows and the end of the window never reaches the
  end of the text.
\<close>

lemma chunk_loop_diverges':
  "chunk_loop md C s i acc = Some r \<Longrightarrow> \<not> (s \<le> 0 \<and> i < int (length md) \<and> i + C < int (length md))"
proof (induction arbitrary: r rule: chunk_loop.raw_induct [rotated 1, consumes 1])
  case (1 chunk_loop' markdown chunkSize stepSize i chunks out)
  show ?case
  proof
    assume pre: "stepSize \<le> 0 \<and> i < int (length markdown) \<and> i + chunkSize < int (length markdown)"
    then have "chunk_loop' markdown chunkSize stepSize (i + stepSize)
        (chunks @ [mk_chunk markdown chunkSize (length chunks) i]) = Some out"
      using 1(2) by (simp add: Let_def mk_chunk_def split: if_splits)
    from 1(1) [OF this] pre show False by simp
  qed
qed

lemma chunk_loop_diverges:
  "s \<le> 0 \<Longrightarrow> i < int (length md) \<Longrightarrow> i + C < int (length md) \<Longrightarrow> chunk_loop md C s i acc = None"
  using chunk_loop_diverges' [of md C s i acc] by (cases "chunk_loop md C s i acc") auto

lemma single_chunk:
  "int (length md) \<le> C \<Longrightarrow>
   htmlToMarkdownChunks md C ov =
     Some [\<lparr>content = md, chunkIndex = 0, startChar = 0, endChar = int (length md), totalChunks = 1\<rparr>]"
  by (simp add: htmlToMarkdownChunks_def)

lemma chunks_long:
  assumes "0 \<le> ov" "ov < C" "C < int (length md)"
  shows "\<exists>cs. htmlToMarkdownChunks md C ov = Some cs \<and> cs \<noteq> []
     \<and> (\<forall>k < length cs. chunkIndex (cs ! k) = k \<and> totalChunks (cs ! k) = length cs
           \<and> startChar (cs ! k) = int k * (C - ov)
           \<and> endChar (cs ! k) = min (int k * (C - ov) + C) (int (length md))
           \<and> content (cs ! k) = js_slice md (startChar (cs ! k)) (endChar (cs ! k)))
     \<and> (\<forall>k. Suc k < length cs \<longrightarrow> int k * (C - ov) + C < int (length md))
     \<and> int (length md) \<le> int (length cs - 1) * (C - ov) + C"
proof -
  have "0 < C - ov" "C - ov \<le> C" "(0::int) \<le> 0" "0 < int (length md)" using assms by auto
  from chunk_loop_run [OF this, of "[]"] obtain cs where cs:
    "chunk_loop md C (C - ov) 0 [] = Some cs" "cs \<noteq> []"
    "\<forall>k < length cs. cs ! k = mk_chunk md C k (int k * (C - ov))"
    "\<forall>k. Suc k < length cs \<longrightarrow> int k * (C - ov) + C < int (length md)"
    "int (length md) \<le> int (length cs - 1) * (C - ov) + C"
    by auto
  let ?out = "map (\<lambda>chunk. chunk\<lparr>totalChunks := length cs\<rparr>) cs"
  have out: "htmlToMarkdownChunks md C ov = Some ?out"
    using assms cs(1) by (simp add: htmlToMarkdownChunks_def)
  have "\<forall>k < length ?out. chunkIndex (?out ! k) = k \<and> totalChunks (?out ! k) = length ?out
           \<and> startChar (?out ! k) = int k * (C - ov)
           \<and> endChar (?out ! k) = min (int k * (C - ov) + C) (int (length md))
           \<and> content (?out ! k) = js_slice md (startChar (?out ! k)) (endChar (?out ! k))"
    using cs(3) by (simp add: mk_chunk_def)
  with out cs(2,4,5) show ?thesis by (intro exI [of _ ?out]) simp
qed

subsection \<open>indexOf\<close>






subsection \<open>The search loop\<close>


















subsection \<open>The worker pool\<close>

lemma first_rejection_None: "first_rejection ws = None \<longleftrightarrow> (\<forall>e. Rejected e \<notin> set ws)"
  by (induction ws rule: first_rejection.induct) auto

lemma first_rejection_update:
  "\<forall>e. Rejected e \<notin> set ws \<Longrightarrow> w < length ws \<Longrightarrow> first_rejection (ws[w := Rejected e]) = Some e"
proof (induction ws arbitrary: w)
  case Nil
  then show ?case by simp
next
  case (Cons x ws)
  show ?case
  proof (cases w)
    case 0
    then show ?thesis by simp
  next
    case (Suc w')
    with Cons.prems have "first_rejection (ws[w' := Rejected e]) = Some e"
      by (intro Cons.IH) auto
    moreover from Cons.prems have "\<forall>e. x \<noteq> Rejected e" by auto
    ultimately show ?thesis using Suc by (cases x) simp_all
  qed
qed

lemma in_flight_mem:
  "in_flight p \<noteq> [] \<Longrightarrow> w = in_flight p ! (k mod length (in_flight p)) \<Longrightarrow>
   w < length (workers p) \<and> is_awaiting (workers p ! w)"
proof -
  assume ne: "in_flight p \<noteq> []" and w: "w = in_flight p ! (k mod length (in_flight p))"
  then have "w \<in> set (in_flight p)" by simp
  then show ?thesis by (simp add: in_flight_def)
qed

lemma in_flight_empty: "in_flight p = [] \<longleftrightarrow> (\<forall>w \<in> set (workers p). \<not> is_awaiting w)"
proof
  assume a: "in_flight p = []"
  show "\<forall>w \<in> set (workers p). \<not> is_awaiting w"
  proof
    fix w assume "w \<in> set (workers p)"
    then obtain i where i: "i < length (workers p)" "workers p ! i = w"
      by (auto simp: in_set_conv_nth)
    with a show "\<not> is_awaiting w" by (auto simp: in_flight_def filter_empty_conv)
  qed
next
  assume "\<forall>w \<in> set (workers p). \<not> is_awaiting w"
  then show "in_flight p = []" by (simp add: in_flight_def filter_empty_conv)
qed

lemma awaiting_count_update:
  assumes "w < length ws" "is_awaiting (ws ! w)"
  shows "length (filter is_awaiting (ws[w := v])) =
     (if is_awaiting v then length (filter is_awaiting ws)
      else length (filter is_awaiting ws) - 1)"
    and "1 \<le> length (filter is_awaiting ws)"
proof -
  let ?A = "{i. i < length ws \<and> is_awaiting (ws ! i)}"
  let ?B = "{i. i < length (ws[w := v]) \<and> is_awaiting (ws[w := v] ! i)}"
  have fin: "finite ?A" by simp
  have win: "w \<in> ?A" using assms by simp
  have cardA: "length (filter is_awaiting ws) = card ?A" by (rule length_filter_conv_card)
  have cardB: "length (filter is_awaiting (ws[w := v])) = card ?B" by (rule length_filter_conv_card)
  have "?B = (if is_awaiting v then ?A else ?A - {w})"
    using assms by (auto simp: nth_list_update)
  then have "card ?B = (if is_awaiting v then card ?A else card ?A - 1)"
    using win fin by (simp add: card_Diff_singleton)
  with cardA cardB show "length (filter is_awaiting (ws[w := v])) =
     (if is_awaiting v then length (filter is_awaiting ws)
      else length (filter is_awaiting ws) - 1)" by simp
  from win fin have "1 \<le> card ?A" by (metis One_nat_def Suc_leI card_gt_0_iff empty_iff)
  with cardA show "1 \<le> length (filter is_awaiting ws)" by simp
qed

lemma set_update_other: "x \<in> set ws \<Longrightarrow> x \<noteq> ws ! w \<Longrightarrow> x \<in> set (ws[w := v])"
  by (metis in_set_conv_nth length_list_update nth_list_update_neq)

lemma complete_success:
  assumes "in_flight p \<noteq> []"
  shows "\<exists>w c i. w < length (workers p) \<and> workers p ! w = Awaiting (c, i)
      \<and> complete (Completion k (Returns s)) p =
          (case queue p of
             [] \<Rightarrow> p\<lparr>result_slots := (result_slots p)[i := Some (with_summary c s)],
                       completed := completed p + 1,
                       workers := (workers p)[w := Finished]\<rparr>
           | item # rest \<Rightarrow>
                 p\<lparr>result_slots := (result_slots p)[i := Some (with_summary c s)],
                   completed := completed p + 1, queue := rest,
                   workers := (workers p)[w := Awaiting item]\<rparr>)"
proof -
  let ?w = "in_flight p ! (k mod length (in_flight p))"
  from in_flight_mem [OF assms refl, of k]
  have w: "?w < length (workers p)" "is_awaiting (workers p ! ?w)" by simp_all
  then obtain c i where ci: "workers p ! ?w = Awaiting (c, i)"
    by (cases "workers p ! ?w") auto
  have "complete (Completion k (Returns s)) p =
          (case queue p of
             [] \<Rightarrow> p\<lparr>result_slots := (result_slots p)[i := Some (with_summary c s)],
                       completed := completed p + 1,
                       workers := (workers p)[?w := Finished]\<rparr>
           | item # rest \<Rightarrow>
                 p\<lparr>result_slots := (result_slots p)[i := Some (with_summary c s)],
                   completed := completed p + 1, queue := rest,
                   workers := (workers p)[?w := Awaiting item]\<rparr>)"
    using assms ci by (simp add: complete.simps Let_def worker_loop_def split: list.splits)
  with w(1) ci show ?thesis by blast
qed

lemma complete_failure:
  assumes "in_flight p \<noteq> []" "\<forall>e. Rejected e \<notin> set (workers p)"
  shows "first_rejection (workers (complete (Completion k (Throws e)) p)) = Some e"
proof -
  let ?w = "in_flight p ! (k mod length (in_flight p))"
  from in_flight_mem [OF assms(1) refl, of k]
  have w: "?w < length (workers p)" "is_awaiting (workers p ! ?w)" by simp_all
  then obtain c i where ci: "workers p ! ?w = Awaiting (c, i)"
    by (cases "workers p ! ?w") auto
  have "workers (complete (Completion k (Throws e)) p) = (workers p)[?w := Rejected e]"
    using assms(1) ci by (simp add: complete.simps Let_def)
  with first_rejection_update [OF assms(2) w(1)] show ?thesis by simp
qed

lemma inv_step_finish:
  assumes inv: "pool_inv chunks p" and w: "w < length (workers p)"
    and a: "workers p ! w = Awaiting (c, i)" and q: "queue p = []"
  shows "pool_inv chunks
     (p\<lparr>result_slots := (result_slots p)[i := Some (with_summary c s)],
        completed := completed p + 1, workers := (workers p)[w := Finished]\<rparr>)"
proof -
  let ?ws = "workers p" and ?ws' = "(workers p)[w := Finished]"
  let ?sl' = "(result_slots p)[i := Some (with_summary c s)]"
  have mem: "Awaiting (c, i) \<in> set ?ws" using w a by (metis nth_mem)
  with inv have ci: "i < length chunks" "c = chunks ! i" by (auto simp: pool_inv_def base_inv_def)
  have len: "length (result_slots p) = length chunks" using inv by (simp add: pool_inv_def base_inv_def)
  have sub: "set ?ws' \<subseteq> insert Finished (set ?ws)" by (rule set_update_subset_insert)
  have 3: "\<forall>c i. Awaiting (c, i) \<in> set ?ws' \<longrightarrow> i < length chunks \<and> c = chunks ! i"
    using inv sub by (auto simp: pool_inv_def base_inv_def)
  have 4: "\<forall>j < length chunks.
            (\<exists>s. ?sl' ! j = Some (with_summary (chunks ! j) s))
            \<or> j \<in> snd ` set (queue p)
            \<or> (\<exists>c. Awaiting (c, j) \<in> set ?ws')"
  proof (intro allI impI)
    fix j assume j: "j < length chunks"
    show "(\<exists>s. ?sl' ! j = Some (with_summary (chunks ! j) s))
            \<or> j \<in> snd ` set (queue p) \<or> (\<exists>c. Awaiting (c, j) \<in> set ?ws')"
    proof (cases "j = i")
      case True
      then have "?sl' ! j = Some (with_summary (chunks ! j) s)" using ci len by simp
      then show ?thesis by blast
    next
      case False
      from inv j have "(\<exists>s. result_slots p ! j = Some (with_summary (chunks ! j) s))
            \<or> j \<in> snd ` set (queue p) \<or> (\<exists>c. Awaiting (c, j) \<in> set ?ws)"
        by (simp add: pool_inv_def base_inv_def)
      then show ?thesis
      proof (elim disjE exE)
        fix s' assume "result_slots p ! j = Some (with_summary (chunks ! j) s')"
        then have "?sl' ! j = Some (with_summary (chunks ! j) s')" using False by simp
        then show ?thesis by blast
      next
        assume "j \<in> snd ` set (queue p)"
        then show ?thesis using q by simp
      next
        fix c' assume "Awaiting (c', j) \<in> set ?ws"
        moreover have "Awaiting (c', j) \<noteq> ?ws ! w" using a False by simp
        ultimately have "Awaiting (c', j) \<in> set ?ws'" by (rule set_update_other)
        then show ?thesis by blast
      qed
    qed
  qed
  have 6: "\<forall>e. Rejected e \<notin> set ?ws'" using inv sub by (auto simp: pool_inv_def base_inv_def)
  have 7: "?ws' \<noteq> []" using w by auto
  from len 3 4 6 7 q show ?thesis by (simp add: pool_inv_def base_inv_def)
qed

lemma inv_step_next:
  assumes inv: "pool_inv chunks p" and w: "w < length (workers p)"
    and a: "workers p ! w = Awaiting (c, i)" and q: "queue p = item # rest"
  shows "pool_inv chunks
     (p\<lparr>result_slots := (result_slots p)[i := Some (with_summary c s)],
        completed := completed p + 1, queue := rest,
        workers := (workers p)[w := Awaiting item]\<rparr>)"
proof -
  let ?ws = "workers p" and ?ws' = "(workers p)[w := Awaiting item]"
  let ?sl' = "(result_slots p)[i := Some (with_summary c s)]"
  have mem: "Awaiting (c, i) \<in> set ?ws" using w a by (metis nth_mem)
  with inv have ci: "i < length chunks" "c = chunks ! i" by (auto simp: pool_inv_def base_inv_def)
  have len: "length (result_slots p) = length chunks" using inv by (simp add: pool_inv_def base_inv_def)
  have sub: "set ?ws' \<subseteq> insert (Awaiting item) (set ?ws)" by (rule set_update_subset_insert)
  have new: "Awaiting item \<in> set ?ws'" using w by (rule set_update_memI)
  have item: "fst item = chunks ! snd item" "snd item < length chunks"
    using inv q by (cases item; simp add: pool_inv_def base_inv_def)+
  have 2: "\<forall>c i. (c, i) \<in> set rest \<longrightarrow> i < length chunks \<and> c = chunks ! i"
    using inv q by (simp add: pool_inv_def base_inv_def)
  have 3: "\<forall>c i. Awaiting (c, i) \<in> set ?ws' \<longrightarrow> i < length chunks \<and> c = chunks ! i"
  proof (intro allI impI)
    fix c' i' assume "Awaiting (c', i') \<in> set ?ws'"
    with sub have "(c', i') = item \<or> Awaiting (c', i') \<in> set ?ws" by auto
    then show "i' < length chunks \<and> c' = chunks ! i'"
      using item inv by (auto simp: pool_inv_def base_inv_def)
  qed
  have 4: "\<forall>j < length chunks.
            (\<exists>s. ?sl' ! j = Some (with_summary (chunks ! j) s))
            \<or> j \<in> snd ` set rest
            \<or> (\<exists>c. Awaiting (c, j) \<in> set ?ws')"
  proof (intro allI impI)
    fix j assume j: "j < length chunks"
    show "(\<exists>s. ?sl' ! j = Some (with_summary (chunks ! j) s))
            \<or> j \<in> snd ` set rest \<or> (\<exists>c. Awaiting (c, j) \<in> set ?ws')"
    proof (cases "j = i")
      case True
      then have "?sl' ! j = Some (with_summary (chunks ! j) s)" using ci len by simp
      then show ?thesis by blast
    next
      case False
      from inv j have "(\<exists>s. result_slots p ! j = Some (with_summary (chunks ! j) s))
            \<or> j \<in> snd ` set (queue p) \<or> (\<exists>c. Awaiting (c, j) \<in> set ?ws)"
        by (simp add: pool_inv_def base_inv_def)
      then show ?thesis
      proof (elim disjE exE)
        fix s' assume "result_slots p ! j = Some (with_summary (chunks ! j) s')"
        then have "?sl' ! j = Some (with_summary (chunks ! j) s')" using False by simp
        then show ?thesis by blast
      next
        assume "j \<in> snd ` set (queue p)"
        then have "j = snd item \<or> j \<in> snd ` set rest" using q by auto
        then show ?thesis
        proof
          assume "j = snd item"
          then have "Awaiting (fst item, j) \<in> set ?ws'" using new by simp
          then show ?thesis by blast
        next
          assume "j \<in> snd ` set rest"
          then show ?thesis by blast
        qed
      next
        fix c' assume "Awaiting (c', j) \<in> set ?ws"
        moreover have "Awaiting (c', j) \<noteq> ?ws ! w" using a False by simp
        ultimately have "Awaiting (c', j) \<in> set ?ws'" by (rule set_update_other)
        then show ?thesis by blast
      qed
    qed
  qed
  have "list_all is_awaiting ?ws" using inv q by (simp add: pool_inv_def base_inv_def)
  then have 5: "list_all is_awaiting ?ws'" using sub by (auto simp: list_all_iff)
  have 6: "\<forall>e. Rejected e \<notin> set ?ws'" using inv sub by (auto simp: pool_inv_def base_inv_def)
  have 7: "?ws' \<noteq> []" using w by auto
  from len 2 3 4 5 6 7 show ?thesis by (simp add: pool_inv_def base_inv_def)
qed

lemma step_success:
  assumes inv: "pool_inv chunks p" and fl: "in_flight p \<noteq> []"
  shows "pool_inv chunks (complete (Completion k (Returns s)) p)
     \<and> Suc (remaining (complete (Completion k (Returns s)) p)) = remaining p"
proof -
  from complete_success [OF fl, of k s] obtain w c i where
    w: "w < length (workers p)" and a: "workers p ! w = Awaiting (c, i)"
    and eq: "complete (Completion k (Returns s)) p =
          (case queue p of
             [] \<Rightarrow> p\<lparr>result_slots := (result_slots p)[i := Some (with_summary c s)],
                       completed := completed p + 1,
                       workers := (workers p)[w := Finished]\<rparr>
           | item # rest \<Rightarrow>
                 p\<lparr>result_slots := (result_slots p)[i := Some (with_summary c s)],
                   completed := completed p + 1, queue := rest,
                   workers := (workers p)[w := Awaiting item]\<rparr>)"
    by blast
  have aw: "is_awaiting (workers p ! w)" using a by simp
  note cnt = awaiting_count_update [OF w aw]
  show ?thesis
  proof (cases "queue p")
    case Nil
    with eq inv_step_finish [OF inv w a Nil, of s] cnt(1) [of Finished] cnt(2)
    show ?thesis by (simp add: remaining_def)
  next
    case (Cons item rest)
    with eq inv_step_next [OF inv w a Cons, of s] cnt(1) [of "Awaiting item"]
    show ?thesis by (simp add: remaining_def)
  qed
qed

lemma settled_inv:
  assumes "pool_inv chunks p"
  shows "settled p = (if in_flight p = [] then Some (Inr (result_slots p)) else None)"
proof -
  have nor: "\<forall>e. Rejected e \<notin> set (workers p)"
    using assms by (simp add: pool_inv_def base_inv_def)
  then have fr: "first_rejection (workers p) = None" by (simp add: first_rejection_None)
  have "list_all (\<lambda>w. w = Finished) (workers p) \<longleftrightarrow> in_flight p = []"
  proof
    assume "list_all (\<lambda>w. w = Finished) (workers p)"
    then show "in_flight p = []" by (auto simp: in_flight_empty list_all_iff)
  next
    assume e: "in_flight p = []"
    show "list_all (\<lambda>w. w = Finished) (workers p)"
      unfolding list_all_iff
    proof
      fix w assume w: "w \<in> set (workers p)"
      with e have "\<not> is_awaiting w" by (simp add: in_flight_empty)
      moreover from w nor have "\<forall>e. w \<noteq> Rejected e" by auto
      ultimately show "w = Finished" by (cases w) auto
    qed
  qed
  with fr show ?thesis by (simp add: settled_def)
qed

lemma idle_in_order:
  assumes inv: "pool_inv chunks p" and e: "in_flight p = []"
  shows "in_chunk_order chunks (result_slots p) \<and> remaining p = 0"
proof -
  have noaw: "\<forall>w \<in> set (workers p). \<not> is_awaiting w" using e by (simp add: in_flight_empty)
  have q: "queue p = []"
  proof (rule ccontr)
    assume ne: "queue p \<noteq> []"
    with inv have all: "list_all is_awaiting (workers p)" by (simp add: pool_inv_def base_inv_def)
    from ne obtain c i where "(c, i) \<in> set (queue p)" by (cases "queue p") auto
    with inv have "i < length chunks" by (simp add: pool_inv_def base_inv_def)
    then have "chunks \<noteq> []" by auto
    with inv have "workers p \<noteq> []" by (simp add: pool_inv_def)
    then obtain w where "w \<in> set (workers p)" by (cases "workers p") auto
    with all noaw show False by (auto simp: list_all_iff)
  qed
  have "\<forall>i < length chunks. \<exists>s. result_slots p ! i = Some (with_summary (chunks ! i) s)"
  proof (intro allI impI)
    fix i assume "i < length chunks"
    with inv have "(\<exists>s. result_slots p ! i = Some (with_summary (chunks ! i) s))
            \<or> i \<in> snd ` set (queue p) \<or> (\<exists>c. Awaiting (c, i) \<in> set (workers p))"
      by (simp add: pool_inv_def base_inv_def)
    with q noaw show "\<exists>s. result_slots p ! i = Some (with_summary (chunks ! i) s)" by auto
  qed
  moreover have "length (result_slots p) = length chunks"
    using inv by (simp add: pool_inv_def base_inv_def)
  moreover have "filter is_awaiting (workers p) = []" using noaw by (simp add: filter_empty_conv)
  ultimately show ?thesis using q by (simp add: in_chunk_order_def remaining_def)
qed

lemma busy_remaining:
  assumes "in_flight p \<noteq> []"
  shows "0 < remaining p"
proof -
  from assms obtain w where "w \<in> set (workers p)" "is_awaiting w"
    by (auto simp: in_flight_empty)
  then have "filter is_awaiting (workers p) \<noteq> []" by (auto simp: filter_empty_conv)
  then show ?thesis by (simp add: remaining_def)
qed

lemma run_rejected:
  "first_rejection (workers p) = Some e \<Longrightarrow> run_pool evs p = Some (Inl e)"
  by (cases evs) (simp_all add: settled_def)

lemma run_safety:
  "pool_inv chunks p \<Longrightarrow> run_pool sched p = Some (Inr rs) \<Longrightarrow> in_chunk_order chunks rs"
proof (induction sched arbitrary: p)
  case Nil
  then show ?case using idle_in_order [of chunks p]
    by (auto simp: settled_inv split: if_splits)
next
  case (Cons ev evs)
  show ?case
  proof (cases "in_flight p = []")
    case True
    with Cons.prems show ?thesis using idle_in_order [of chunks p]
      by (auto simp: settled_inv)
  next
    case False
    with Cons.prems have run: "run_pool evs (complete ev p) = Some (Inr rs)"
      by (simp add: settled_inv)
    obtain k out where ev: "ev = Completion k out" by (cases ev)
    show ?thesis
    proof (cases out)
      case (Returns s)
      with step_success [OF Cons.prems(1) False, of k s] ev
      have "pool_inv chunks (complete ev p)" by simp
      from Cons.IH [OF this run] show ?thesis .
    next
      case (Throws e)
      from Cons.prems(1) have "\<forall>e. Rejected e \<notin> set (workers p)"
        by (simp add: pool_inv_def base_inv_def)
      from complete_failure [OF False this, of k e] Throws ev
      have "run_pool evs (complete ev p) = Some (Inl e)" by (simp add: run_rejected)
      with run show ?thesis by simp
    qed
  qed
qed

lemma run_liveness:
  "pool_inv chunks p \<Longrightarrow> remaining p \<le> length sched \<Longrightarrow>
   \<forall>ev \<in> set (take (remaining p) sched). is_success ev \<Longrightarrow>
   \<exists>rs. run_pool sched p = Some (Inr rs)"
proof (induction sched arbitrary: p)
  case Nil
  then have "in_flight p = []" using busy_remaining [of p] by auto
  with Nil show ?case by (simp add: settled_inv)
next
  case (Cons ev evs)
  show ?case
  proof (cases "in_flight p = []")
    case True
    with Cons.prems show ?thesis by (simp add: settled_inv)
  next
    case False
    then obtain r where r: "remaining p = Suc r" using busy_remaining [of p] by (cases "remaining p") auto
    with Cons.prems(3) have ok: "is_success ev" "\<forall>e \<in> set (take r evs). is_success e" by simp_all
    then obtain k s where ev: "ev = Completion k (Returns s)"
      by (cases ev rule: is_success.cases) auto
    from step_success [OF Cons.prems(1) False, of k s] ev r
    have inv: "pool_inv chunks (complete ev p)" and rem: "remaining (complete ev p) = r" by simp_all
    have "\<exists>rs. run_pool evs (complete ev p) = Some (Inr rs)"
      using Cons.prems(2) r rem ok(2) by (intro Cons.IH [OF inv]) simp_all
    with False Cons.prems(1) show ?thesis by (simp add: settled_inv)
  qed
qed

lemma run_failure:
  "pool_inv chunks p \<Longrightarrow> \<forall>ev \<in> set pre. is_success ev \<Longrightarrow> length pre < remaining p \<Longrightarrow>
   run_pool (pre @ Completion k (Throws e) # post) p = Some (Inl e)"
proof (induction pre arbitrary: p)
  case Nil
  then have busy: "in_flight p \<noteq> []" using idle_in_order [of chunks p] by auto
  from Nil.prems(1) have "\<forall>e. Rejected e \<notin> set (workers p)"
    by (simp add: pool_inv_def base_inv_def)
  from complete_failure [OF busy this, of k e]
  have "run_pool post (complete (Completion k (Throws e)) p) = Some (Inl e)"
    by (rule run_rejected)
  with busy Nil.prems(1) show ?case by (simp add: settled_inv)
next
  case (Cons ev pre)
  then have busy: "in_flight p \<noteq> []" using idle_in_order [of chunks p] by auto
  from Cons.prems(2) have "is_success ev" by simp
  then obtain k' s where ev: "ev = Completion k' (Returns s)"
    by (cases ev rule: is_success.cases) auto
  from step_success [OF Cons.prems(1) busy, of k' s] ev
  have inv: "pool_inv chunks (complete ev p)"
    and rem: "Suc (remaining (complete ev p)) = remaining p" by simp_all
  have "run_pool (pre @ Completion k (Throws e) # post) (complete ev p) = Some (Inl e)"
    using Cons.prems(2,3) rem by (intro Cons.IH [OF inv]) simp_all
  with busy Cons.prems(1) show ?case by (simp add: settled_inv)
qed

lemma initial_pool_inv:
  "base_inv chunks (initial_pool chunks) \<and> remaining (initial_pool chunks) = length chunks
   \<and> workers (initial_pool chunks) = []
   \<and> length (queue (initial_pool chunks)) = length chunks"
proof -
  let ?q = "zip chunks [0 ..< length chunks]"
  have 2: "\<forall>c i. (c, i) \<in> set ?q \<longrightarrow> i < length chunks \<and> c = chunks ! i"
    by (auto simp: set_zip)
  have 4: "\<forall>i < length chunks. i \<in> snd ` set ?q"
  proof (intro allI impI)
    fix i assume "i < length chunks"
    then have "(chunks ! i, i) \<in> set ?q" by (auto simp: set_zip intro!: exI [of _ i])
    then show "i \<in> snd ` set ?q" by force
  qed
  from 2 4 show ?thesis by (simp add: base_inv_def initial_pool_def remaining_def)
qed

lemma start_workers_inv:
  "base_inv chunks p \<Longrightarrow> k \<le> length (queue p) \<Longrightarrow> list_all is_awaiting (workers p) \<Longrightarrow>
   base_inv chunks (start_workers k p)
   \<and> length (workers (start_workers k p)) = length (workers p) + k
   \<and> remaining (start_workers k p) = remaining p"
proof (induction k arbitrary: p)
  case 0
  then show ?case by simp
next
  case (Suc k)
  then obtain item rest where q: "queue p = item # rest" by (cases "queue p") auto
  let ?p = "p\<lparr>queue := rest, workers := workers p @ [Awaiting item]\<rparr>"
  have st: "start_workers (Suc k) p = start_workers k ?p"
    using q by (simp add: worker_loop_def)
  have item: "snd item < length chunks" "fst item = chunks ! snd item"
    using Suc.prems(1) q by (cases item; simp add: base_inv_def)+
  have 4: "\<forall>i < length chunks.
            (\<exists>s. result_slots p ! i = Some (with_summary (chunks ! i) s))
            \<or> i \<in> snd ` set rest
            \<or> (\<exists>c. Awaiting (c, i) \<in> set (workers p @ [Awaiting item]))"
  proof (intro allI impI)
    fix i assume "i < length chunks"
    with Suc.prems(1) have "(\<exists>s. result_slots p ! i = Some (with_summary (chunks ! i) s))
            \<or> i \<in> snd ` set (queue p) \<or> (\<exists>c. Awaiting (c, i) \<in> set (workers p))"
      by (simp add: base_inv_def)
    moreover have "i \<in> snd ` set (queue p) \<Longrightarrow> i = snd item \<or> i \<in> snd ` set rest"
      using q by auto
    moreover have "i = snd item \<Longrightarrow> Awaiting (fst item, i) \<in> set (workers p @ [Awaiting item])"
      by simp
    ultimately show "(\<exists>s. result_slots p ! i = Some (with_summary (chunks ! i) s))
            \<or> i \<in> snd ` set rest
            \<or> (\<exists>c. Awaiting (c, i) \<in> set (workers p @ [Awaiting item]))"
      by (metis Un_iff set_append)
  qed
  have 3: "\<forall>c i. Awaiting (c, i) \<in> set (workers p @ [Awaiting item])
        \<longrightarrow> i < length chunks \<and> c = chunks ! i"
    using Suc.prems(1) item by (auto simp: base_inv_def)
  have inv: "base_inv chunks ?p"
    using Suc.prems(1,3) q 3 4 by (simp add: base_inv_def)
  have "k \<le> length (queue ?p)" "list_all is_awaiting (workers ?p)"
    using Suc.prems(2,3) q by simp_all
  from Suc.IH [OF inv this] q st show ?case by (simp add: remaining_def)
qed

lemma started_pool:
  fixes chunks :: "MarkdownChunk list" and maxConcurrency :: int
  assumes "1 \<le> maxConcurrency"
  defines "p \<equiv> start_workers (nat (min maxConcurrency (int (length chunks)))) (initial_pool chunks)"
  shows "pool_inv chunks p \<and> remaining p = length chunks"
proof -
  let ?m = "nat (min maxConcurrency (int (length chunks)))"
  have m: "?m \<le> length (queue (initial_pool chunks))" using initial_pool_inv [of chunks] by simp
  have aw: "list_all is_awaiting (workers (initial_pool chunks))"
    using initial_pool_inv [of chunks] by simp
  from start_workers_inv [OF _ m aw, of chunks] initial_pool_inv [of chunks]
  have b: "base_inv chunks p" "length (workers p) = ?m" "remaining p = length chunks"
    by (simp_all add: p_def)
  have "workers p \<noteq> [] \<or> chunks = []"
  proof (cases "chunks = []")
    case False
    then have "0 < length chunks" by simp
    then have "0 < ?m" using assms(1) by linarith
    with b(2) have "0 < length (workers p)" by linarith
    then show ?thesis by auto
  qed simp
  with b show ?thesis by (simp add: pool_inv_def)
qed

lemma run_success_only:
  "pool_inv chunks p \<Longrightarrow> run_pool sched p = Some (Inr rs) \<Longrightarrow>
   remaining p \<le> length sched \<and> (\<forall>ev \<in> set (take (remaining p) sched). is_success ev)"
proof (induction sched arbitrary: p)
  case Nil
  then have "in_flight p = []" by (simp add: settled_inv split: if_splits)
  then have "remaining p = 0" using idle_in_order [OF Nil.prems(1)] by simp
  then show ?case by simp
next
  case (Cons ev evs)
  show ?case
  proof (cases "in_flight p = []")
    case True
    then have "remaining p = 0" using idle_in_order [OF Cons.prems(1)] by simp
    then show ?thesis by simp
  next
    case False
    with Cons.prems have run: "run_pool evs (complete ev p) = Some (Inr rs)"
      by (simp add: settled_inv)
    obtain k out where ev: "ev = Completion k out" by (cases ev)
    show ?thesis
    proof (cases out)
      case (Returns s)
      with step_success [OF Cons.prems(1) False, of k s] ev
      have inv: "pool_inv chunks (complete ev p)"
        and rem: "remaining p = Suc (remaining (complete ev p))" by simp_all
      from Cons.IH [OF inv run] rem ev Returns show ?thesis by simp
    next
      case (Throws e)
      from Cons.prems(1) have "\<forall>e. Rejected e \<notin> set (workers p)"
        by (simp add: pool_inv_def base_inv_def)
      from complete_failure [OF False this, of k e] Throws ev
      have "run_pool evs (complete ev p) = Some (Inl e)" by (simp add: run_rejected)
      with run show ?thesis by simp
    qed
  qed
qed

lemma in_chunk_order_full: "in_chunk_order chunks rs \<Longrightarrow> None \<notin> set rs"
  by (auto simp: in_chunk_order_def in_set_conv_nth)

lemma complete_success_at:
  assumes "in_flight p \<noteq> []"
    and "workers p ! (in_flight p ! (k mod length (in_flight p))) = Awaiting (c, i)"
  shows "result_slots (complete (Completion k (Returns s)) p)
           = (result_slots p)[i := Some (with_summary c s)]"
  using assms by (simp add: complete.simps Let_def worker_loop_def split: list.splits)

lemma run_log:
  "pool_inv chunks p \<Longrightarrow> run_pool sched p = Some (Inr rs) \<Longrightarrow>
   rs = fold (write_slot chunks) (map snd (call_log sched p)) (result_slots p)
   \<and> length (call_log sched p) = remaining p"
proof (induction sched arbitrary: p)
  case Nil
  then have "in_flight p = []" by (simp add: settled_inv split: if_splits)
  with Nil idle_in_order [OF Nil.prems(1)] show ?case by (simp add: settled_inv)
next
  case (Cons ev evs)
  obtain k out where ev: "ev = Completion k out" by (cases ev)
  show ?case
  proof (cases "in_flight p = []")
    case True
    with Cons.prems idle_in_order [OF Cons.prems(1)] ev show ?thesis by (simp add: settled_inv)
  next
    case False
    with Cons.prems have run: "run_pool evs (complete ev p) = Some (Inr rs)"
      by (simp add: settled_inv)
    let ?w = "in_flight p ! (k mod length (in_flight p))"
    from in_flight_mem [OF False refl, of k]
    have w: "?w < length (workers p)" "is_awaiting (workers p ! ?w)" by simp_all
    then obtain c i where ci: "workers p ! ?w = Awaiting (c, i)"
      by (cases "workers p ! ?w") auto
    have "Awaiting (c, i) \<in> set (workers p)" using w(1) ci by (metis nth_mem)
    with Cons.prems(1) have genuine: "c = chunks ! i"
      by (auto simp: pool_inv_def base_inv_def)
    show ?thesis
    proof (cases out)
      case (Returns s)
      with step_success [OF Cons.prems(1) False, of k s] ev
      have inv: "pool_inv chunks (complete ev p)"
        and rem: "remaining p = Suc (remaining (complete ev p))" by simp_all
      have slots: "result_slots (complete ev p) = (result_slots p)[i := Some (with_summary (chunks ! i) s)]"
        using complete_success_at [OF False ci, of s] ev Returns genuine by simp
      have calls: "call_log (ev # evs) p = (c, i, Returns s) # call_log evs (complete ev p)"
        using False ci ev Returns Cons.prems(1) by (simp add: settled_inv)
      from Cons.IH [OF inv run] slots calls rem show ?thesis by simp
    next
      case (Throws e)
      from Cons.prems(1) have "\<forall>e. Rejected e \<notin> set (workers p)"
        by (simp add: pool_inv_def base_inv_def)
      from complete_failure [OF False this, of k e] Throws ev
      have "run_pool evs (complete ev p) = Some (Inl e)" by (simp add: run_rejected)
      with run show ?thesis by simp
    qed
  qed
qed

lemma fold_write_length [simp]: "length (fold (write_slot chunks) calls slots) = length slots"
proof (induction calls arbitrary: slots)
  case Nil
  then show ?case by simp
next
  case (Cons x calls)
  obtain i out where "x = (i, out)" by (cases x)
  then show ?case using Cons by (cases out) simp_all
qed

lemma fold_write_other:
  "i \<notin> fst ` set calls \<Longrightarrow> fold (write_slot chunks) calls slots ! i = slots ! i"
proof (induction calls arbitrary: slots)
  case Nil
  then show ?case by simp
next
  case (Cons x calls)
  obtain j out where x: "x = (j, out)" by (cases x)
  with Cons.prems have "j \<noteq> i" "i \<notin> fst ` set calls" by auto
  with Cons.IH [of "write_slot chunks x slots"] x show ?case by (cases out) simp_all
qed

lemma fold_write_entry:
  "distinct (map fst calls) \<Longrightarrow> (i, out) \<in> set calls \<Longrightarrow> i < length slots \<Longrightarrow>
   fold (write_slot chunks) calls slots ! i = write_slot chunks (i, out) slots ! i"
proof (induction calls arbitrary: slots)
  case Nil
  then show ?case by simp
next
  case (Cons x calls)
  obtain j o' where x: "x = (j, o')" by (cases x)
  show ?case
  proof (cases "(i, out) = x")
    case True
    from Cons.prems(1) have "fst x \<notin> set (map fst calls)" by simp
    with True have "i \<notin> fst ` set calls" by (metis fst_conv set_map)
    from fold_write_other [OF this] True show ?thesis by simp
  next
    case False
    with Cons.prems have mem: "(i, out) \<in> set calls" by simp
    then have "i \<in> fst ` set calls" by force
    then have "i \<in> set (map fst calls)" by simp
    with Cons.prems(1) x have ne: "j \<noteq> i" by auto
    have len: "i < length (write_slot chunks x slots)" using Cons.prems(3) x by (cases o') simp_all
    from Cons.prems(1) have d: "distinct (map fst calls)" by simp
    have "fold (write_slot chunks) (x # calls) slots ! i
        = write_slot chunks (i, out) (write_slot chunks x slots) ! i"
      using Cons.IH [OF d mem len] by simp
    also have "\<dots> = write_slot chunks (i, out) slots ! i"
      using ne x Cons.prems(3) by (cases out; cases o') simp_all
    finally show ?thesis .
  qed
qed

lemma start_workers_slots: "result_slots (start_workers k p) = result_slots p"
  by (induction k arbitrary: p) (auto simp: worker_loop_def Let_def split: list.splits)

lemma returned_calls:
  fixes chunks :: "MarkdownChunk list" and maxConcurrency :: int
  assumes mc: "1 \<le> maxConcurrency"
    and ret: "generateChunkSummaries chunks maxConcurrency schedule = Some (Inr rs)"
  shows "length rs = length chunks
     \<and> distinct (map fst (map snd (completed_calls chunks maxConcurrency schedule)))
     \<and> set (map fst (map snd (completed_calls chunks maxConcurrency schedule))) = {..< length chunks}
     \<and> (\<forall>i out. (i, out) \<in> set (map snd (completed_calls chunks maxConcurrency schedule)) \<longrightarrow>
           (\<exists>s. out = Returns s \<and> rs ! i = Some (with_summary (chunks ! i) s)))"
proof -
  let ?p = "start_workers (nat (min maxConcurrency (int (length chunks)))) (initial_pool chunks)"
  define L where "L = map snd (completed_calls chunks maxConcurrency schedule)"
  let ?n = "length chunks"
  from started_pool [OF mc, of chunks]
  have inv: "pool_inv chunks ?p" and rem: "remaining ?p = ?n" by simp_all
  have run: "run_pool schedule ?p = Some (Inr rs)"
    using ret by (simp add: generateChunkSummaries_def)
  have slots0: "result_slots ?p = replicate ?n None"
    by (simp add: start_workers_slots initial_pool_def)
  from run_log [OF inv run] rem slots0
  have rs: "rs = fold (write_slot chunks) L (replicate ?n None)" and len: "length L = ?n"
    by (simp_all add: completed_calls_def L_def)
  from run_safety [OF inv run] have ord: "in_chunk_order chunks rs" .
  then have lrs: "length rs = ?n"
    and full: "\<And>i. i < ?n \<Longrightarrow> rs ! i \<noteq> None"
    by (auto simp: in_chunk_order_def)
  have sub: "{..< ?n} \<subseteq> set (map fst L)"
  proof
    fix i assume "i \<in> {..< ?n}"
    then have i: "i < ?n" by simp
    show "i \<in> set (map fst L)"
    proof (rule ccontr)
      assume "i \<notin> set (map fst L)"
      then have "i \<notin> fst ` set L" by simp
      from fold_write_other [OF this, of chunks "replicate ?n None"] rs i
      have "rs ! i = None" by simp
      with full [OF i] show False by simp
    qed
  qed
  have "card (set (map fst L)) \<le> length (map fst L)" by (rule card_length)
  moreover have "card {..< ?n} \<le> card (set (map fst L))"
    using sub by (intro card_mono) simp_all
  ultimately have card: "card (set (map fst L)) = ?n" using len by simp
  then have dist: "distinct (map fst L)" using len by (intro card_distinct) simp
  have seteq: "set (map fst L) = {..< ?n}"
    using sub card by (intro card_subset_eq [symmetric]) simp_all
  have each: "\<forall>i out. (i, out) \<in> set L \<longrightarrow>
           (\<exists>s. out = Returns s \<and> rs ! i = Some (with_summary (chunks ! i) s))"
  proof (intro allI impI)
    fix i out assume mem: "(i, out) \<in> set L"
    then have "i \<in> set (map fst L)" by force
    with seteq have i: "i < ?n" by simp
    from fold_write_entry [OF dist mem, of "replicate ?n None" chunks] i rs
    have eq: "rs ! i = write_slot chunks (i, out) (replicate ?n None) ! i" by simp
    show "\<exists>s. out = Returns s \<and> rs ! i = Some (with_summary (chunks ! i) s)"
    proof (cases out)
      case (Returns s)
      with eq i show ?thesis by simp
    next
      case (Throws e)
      with eq i have "rs ! i = None" by simp
      with full [OF i] show ?thesis by simp
    qed
  qed
  from lrs dist seteq each show ?thesis unfolding L_def by blast
qed

lemma call_log_settled: "settled p \<noteq> None \<Longrightarrow> call_log evs p = []"
proof (cases evs)
  case Nil
  then show ?thesis by simp
next
  case (Cons ev rest)
  assume "settled p \<noteq> None"
  then show ?thesis using Cons by (cases ev) simp
qed

lemma call_log_genuine:
  "pool_inv chunks p \<Longrightarrow> (c, i, out) \<in> set (call_log sched p) \<Longrightarrow> c = chunks ! i"
proof (induction sched arbitrary: p)
  case Nil
  then show ?case by simp
next
  case (Cons ev evs)
  obtain k out' where ev: "ev = Completion k out'" by (cases ev)
  from Cons.prems(2) ev have busy: "in_flight p \<noteq> []" by (auto split: if_splits)
  let ?w = "in_flight p ! (k mod length (in_flight p))"
  from in_flight_mem [OF busy refl, of k]
  have w: "?w < length (workers p)" "is_awaiting (workers p ! ?w)" by simp_all
  then obtain c' i' where ci: "workers p ! ?w = Awaiting (c', i')"
    by (cases "workers p ! ?w") auto
  have "Awaiting (c', i') \<in> set (workers p)" using w(1) ci by (metis nth_mem)
  with Cons.prems(1) have genuine: "c' = chunks ! i'"
    by (auto simp: pool_inv_def base_inv_def)
  from Cons.prems(2) ev busy ci
  have mem: "(c, i, out) = (c', i', out') \<or> (c, i, out) \<in> set (call_log evs (complete ev p))"
    by (auto split: if_splits)
  show ?case
  proof (cases "(c, i, out) = (c', i', out')")
    case True
    with genuine show ?thesis by simp
  next
    case False
    with mem have later: "(c, i, out) \<in> set (call_log evs (complete ev p))" by blast
    show ?thesis
    proof (cases out')
      case (Returns s)
      with step_success [OF Cons.prems(1) busy, of k s] ev
      have "pool_inv chunks (complete ev p)" by simp
      from Cons.IH [OF this later] show ?thesis .
    next
      case (Throws e)
      from Cons.prems(1) have "\<forall>e. Rejected e \<notin> set (workers p)"
        by (simp add: pool_inv_def base_inv_def)
      from complete_failure [OF busy this, of k e] Throws ev
      have "settled (complete ev p) \<noteq> None" by (simp add: settled_def)
      then have "call_log evs (complete ev p) = []" by (rule call_log_settled)
      with later show ?thesis by simp
    qed
  qed
qed

lemma with_summary_fields:
  "with_summary c s =
     \<lparr>content = content c, chunkIndex = chunkIndex c, startChar = startChar c,
      endChar = endChar c, totalChunks = totalChunks c, summary = s\<rparr>"
  by (simp add: with_summary_def)

subsection \<open>Events of the session\<close>

lemma count_emitEvent:
  "count_events name (emitEvent name' data st) =
     (if name' = name then Suc (count_events name st) else count_events name st)"
  by (simp add: count_events_def emitEvent_def)

lemma count_stats [simp]: "count_events name (st\<lparr>stats := x\<rparr>) = count_events name st"
  by (simp add: count_events_def)

lemma count_emit:
  "emit snk name' data st = (t, st') \<Longrightarrow>
   count_events name st' =
     (if name' = name then Suc (count_events name st) else count_events name st)"
  by (auto simp: emit_def count_emitEvent)

lemma emit_accepted: "\<forall>history ev. snk history ev = None \<Longrightarrow> fst (emit snk name data st) = None"
  by (simp add: emit_def)

lemma tool_catch_session: "snd (tool_catch r) = snd r"
  by (auto simp: tool_catch_def split: prod.splits option.splits sum.splits)

lemma tool_catch_accepted: "fst r = None \<Longrightarrow> fst (tool_catch r) = None"
  by (auto simp: tool_catch_def split: prod.splits option.splits sum.splits)

text \<open>With a sink that never throws, the tools run as described in the section on tools.\<close>

lemma execute_readContent_accepted:
  "\<forall>history ev. snk history ev = None \<Longrightarrow>
   execute_readContent snk fullContent startPos endPos st
     = (None, snd (readContent fullContent startPos endPos st))"
  by (simp add: execute_readContent_def readContent_def emit_def Let_def)

lemma execute_readFigure_accepted:
  "\<forall>history ev. snk history ev = None \<Longrightarrow>
   execute_readFigure snk imageUrl query vision st
     = (None, snd (readFigure imageUrl query vision st))"
  by (simp add: execute_readFigure_def readFigure_def emit_def tool_catch_def Let_def
      split: js_result.splits)

lemma execute_readTable_accepted:
  "\<forall>history ev. snk history ev = None \<Longrightarrow>
   execute_readTable snk imageUrl vision st = (None, snd (readTable imageUrl vision st))"
  by (simp add: execute_readTable_def readTable_def emit_def tool_catch_def Let_def
      split: js_result.splits)

lemma execute_searchContent_accepted:
  "\<forall>history ev. snk history ev = None \<Longrightarrow>
   execute_searchContent snk fullContent needle maxResultsOpt st
     = (None, snd (searchContent fullContent needle maxResultsOpt st))"
  by (simp add: execute_searchContent_def searchContent_def emit_def Let_def split_def)

lemma execute_terminal:
  assumes "name = ''answer'' \<or> name = ''error''"
  shows "count_events name (snd (execute snk fullContent call st)) = count_events name st"
proof (cases call)
  case (InvokeReadContent s e)
  then show ?thesis using assms
    by (auto simp: execute_readContent_def Let_def emit_def count_emitEvent
        split: option.splits)
next
  case (InvokeReadFigure url q v)
  then show ?thesis using assms
    by (auto simp: execute_readFigure_def Let_def emit_def count_emitEvent tool_catch_session
        split: option.splits js_result.splits)
next
  case (InvokeReadTable url v)
  then show ?thesis using assms
    by (auto simp: execute_readTable_def Let_def emit_def count_emitEvent tool_catch_session
        split: option.splits js_result.splits)
next
  case (InvokeSearchContent needle mro)
  then show ?thesis using assms
    by (auto simp: execute_searchContent_def Let_def emit_def count_emitEvent
        split: option.splits)
qed

lemma execute_accepted:
  assumes "\<forall>history ev. snk history ev = None"
  shows "fst (execute snk fullContent call st) = None"
proof (cases call)
  case (InvokeReadContent s e)
  then show ?thesis using assms by (simp add: execute_readContent_def Let_def emit_def)
next
  case (InvokeReadFigure url q v)
  then show ?thesis using assms
    by (simp add: execute_readFigure_def Let_def emit_def tool_catch_def split: js_result.splits)
next
  case (InvokeReadTable url v)
  then show ?thesis using assms
    by (simp add: execute_readTable_def Let_def emit_def tool_catch_def split: js_result.splits)
next
  case (InvokeSearchContent needle mro)
  then show ?thesis using assms by (simp add: execute_searchContent_def Let_def emit_def)
qed

lemma reasoning_call_terminal:
  "name = ''answer'' \<or> name = ''error'' \<Longrightarrow>
   count_events name (snd (reasoning_call snk fullContent policy ending calls st))
     = count_events name st"
proof (induction calls arbitrary: st)
  case Nil
  then show ?case by simp
next
  case (Cons call calls)
  obtain t st' where ex: "execute snk fullContent call st = (t, st')"
    by (cases "execute snk fullContent call st")
  from execute_terminal [OF Cons.prems, of snk fullContent call st] ex
  have "count_events name st' = count_events name st" by simp
  with Cons.IH [OF Cons.prems, of st'] ex show ?case
    by (simp split: option.splits)
qed

lemma reasoning_call_accepted:
  "\<forall>history ev. snk history ev = None \<Longrightarrow>
   fst (reasoning_call snk fullContent policy ending calls st) = ending"
proof (induction calls arbitrary: st)
  case Nil
  then show ?case by simp
next
  case (Cons call calls)
  obtain t st' where ex: "execute snk fullContent call st = (t, st')"
    by (cases "execute snk fullContent call st")
  with execute_accepted [OF Cons.prems, of fullContent call st] have "t = None" by simp
  with Cons.IH [OF Cons.prems, of st'] ex show ?case by simp
qed

lemma and_then_emit_rule:
  assumes "\<And>v. P (Some v, emitEvent name data st)" and "P (rest (emitEvent name data st))"
  shows "P (and_then (emit snk name data st) rest)"
  using assms by (cases "snk (events st) (name, data)") (simp_all add: and_then_def emit_def)

lemma and_then_if_emit_rule:
  assumes "\<And>v. P (Some v, emitEvent name data st)" and "P (rest (emitEvent name data st))"
    and "P (rest st)"
  shows "P (and_then (if c then emit snk name data st else (None, st)) rest)"
  using assms
  by (cases c; cases "snk (events st) (name, data)") (simp_all add: and_then_def emit_def)

lemma emit_rule:
  assumes "\<And>t. P (t, emitEvent name data st)"
  shows "P (emit snk name data st)"
  using assms by (simp add: emit_def)

lemma reasoning_call_rule:
  assumes "\<And>v st4. count_events ''error'' st4 = count_events ''error'' st \<Longrightarrow>
             count_events ''answer'' st4 = count_events ''answer'' st \<Longrightarrow> P (failed v st4)"
    and "\<And>answer steps st4. count_events ''error'' st4 = count_events ''error'' st \<Longrightarrow>
             count_events ''answer'' st4 = count_events ''answer'' st \<Longrightarrow>
             P (answered answer steps st4)"
  shows "P (case reasoning_call snk fullContent policy ending calls st of
              (Failed v, st4) \<Rightarrow> failed v st4
            | (Answered answer steps, st4) \<Rightarrow> answered answer steps st4)"
proof -
  obtain e4 st4 where rc: "reasoning_call snk fullContent policy ending calls st = (e4, st4)"
    by (cases "reasoning_call snk fullContent policy ending calls st")
  have "count_events ''error'' st4 = count_events ''error'' st"
    "count_events ''answer'' st4 = count_events ''answer'' st"
    using reasoning_call_terminal [of "''error''" snk fullContent policy ending calls st]
      reasoning_call_terminal [of "''answer''" snk fullContent policy ending calls st] rc
    by simp_all
  with assms rc show ?thesis by (cases e4) simp_all
qed

lemma try_block_counts:
  "count_events ''error'' (snd (try_block snk fullContent options run elapsed st0))
     = count_events ''error'' st0
   \<and> count_events ''answer'' (snd (try_block snk fullContent options run elapsed st0))
     \<le> Suc (count_events ''answer'' st0)"
proof -
  define P where "P = (\<lambda>r :: thrown option \<times> session.
     count_events ''error'' (snd r) = count_events ''error'' st0
     \<and> count_events ''answer'' (snd r) \<le> Suc (count_events ''answer'' st0))"
  have "P (try_block snk fullContent options run elapsed st0)"
    unfolding try_block_def
    apply (rule and_then_emit_rule [where P = P])
     apply (simp add: P_def count_emitEvent)
    apply (rule and_then_emit_rule [where P = P])
     apply (simp add: P_def count_emitEvent)
    apply (rule and_then_emit_rule [where P = P])
     apply (simp add: P_def count_emitEvent)
    apply (rule reasoning_call_rule [where P = P])
     apply (simp add: P_def count_emitEvent)
    apply (simp only: Let_def)
    apply (rule and_then_emit_rule [where P = P])
     apply (simp add: P_def count_emitEvent)
    apply (rule and_then_emit_rule [where P = P])
     apply (simp add: P_def count_emitEvent)
    apply (rule and_then_if_emit_rule [where P = P])
      apply (simp add: P_def count_emitEvent)
     apply (rule emit_rule [where P = P])
     apply (simp add: P_def count_emitEvent)
    apply (rule emit_rule [where P = P])
    apply (simp add: P_def count_emitEvent)
    done
  then show ?thesis by (simp add: P_def)
qed

lemma catch_block_counts:
  "count_events ''answer'' (snd (catch_block snk error st)) = count_events ''answer'' st
   \<and> count_events ''error'' (snd (catch_block snk error st)) \<le> Suc (count_events ''error'' st)"
  by (simp add: catch_block_def emit_def count_emitEvent split: sum.splits option.splits)

lemma new_session_counts [simp]: "count_events name new_session = 0"
  by (simp add: count_events_def new_session_def)

lemma session_bounds:
  "count_events ''answer''
     (snd (agenticReaderWithEvents question fullContent chunksWithSummaries snk options run elapsed))
     \<le> 1
   \<and> count_events ''error''
     (snd (agenticReaderWithEvents question fullContent chunksWithSummaries snk options run elapsed))
     \<le> 1"
proof -
  obtain t st where tb: "try_block snk fullContent options run elapsed new_session = (t, st)"
    by (cases "try_block snk fullContent options run elapsed new_session")
  from try_block_counts [of snk fullContent options run elapsed new_session] tb
  have c: "count_events ''error'' st = 0" "count_events ''answer'' st \<le> 1" by simp_all
  show ?thesis
  proof (cases t)
    case None
    with tb c show ?thesis by (simp add: agenticReaderWithEvents_def)
  next
    case (Some error)
    from catch_block_counts [of snk error st] c Some tb show ?thesis
      by (simp add: agenticReaderWithEvents_def)
  qed
qed

lemma and_then_emit_accepted:
  "\<forall>history ev. snk history ev = None \<Longrightarrow>
   and_then (emit snk name data st) rest = rest (emitEvent name data st)"
  by (simp add: and_then_def emit_def)

lemma reasoning_call_accepted_eq:
  "\<forall>history ev. snk history ev = None \<Longrightarrow>
   reasoning_call snk fullContent policy ending calls st
     = (ending, snd (reasoning_call snk fullContent policy ending calls st))"
  using reasoning_call_accepted [of snk fullContent policy ending calls st]
  by (cases "reasoning_call snk fullContent policy ending calls st") simp

lemma try_block_accepted:
  assumes acc: "\<forall>history ev. snk history ev = None"
  shows "(\<forall>answer steps. reasoning_outcome run = Answered answer steps \<longrightarrow>
            fst (try_block snk fullContent options run elapsed st0) = None
            \<and> count_events ''answer'' (snd (try_block snk fullContent options run elapsed st0))
                = Suc (count_events ''answer'' st0))
       \<and> (\<forall>v. reasoning_outcome run = Failed v \<longrightarrow>
            fst (try_block snk fullContent options run elapsed st0) = Some v
            \<and> count_events ''answer'' (snd (try_block snk fullContent options run elapsed st0))
                = count_events ''answer'' st0)"
proof -
  let ?st3 = "emitEvent ''status''
                 (StatusData ''exploring'' ''Agent is exploring the document...'')
        (emitEvent ''status''
                 (StatusDocumentData ''document_loaded''
                    (''Document loaded: '' @ show_nat (length fullContent) @ '' characters'')
                    (length fullContent))
          (emitEvent ''status''
                 (StatusData ''starting'' ''Initializing agentic reader...'') st0))"
  define st4 where "st4 = snd (reasoning_call snk fullContent (on_tool_throw run)
      (reasoning_outcome run) (tool_trace run) ?st3)"
  have rc: "reasoning_call snk fullContent (on_tool_throw run)
      (reasoning_outcome run) (tool_trace run) ?st3 = (reasoning_outcome run, st4)"
    unfolding st4_def by (rule reasoning_call_accepted_eq [OF acc])
  have c4: "count_events ''answer'' st4 = count_events ''answer'' st0"
    unfolding st4_def by (simp add: reasoning_call_terminal count_emitEvent)
  have head: "try_block snk fullContent options run elapsed st0 =
      (case (reasoning_outcome run, st4) of
       (Failed v, st4) \<Rightarrow> (Some v, st4)
     | (Answered answer steps, st4) \<Rightarrow>
         (let st5 = st4\<lparr>stats := (stats st4)\<lparr>search_iterations := steps\<rparr>\<rparr> in
          and_then (emit snk ''status''
                      (StatusStatsData ''exploration_complete''
                         (''Agent completed exploration in '' @ show_nat steps @ '' steps'')
                         (stats st5)) st5) (\<lambda>st6.
          and_then (emit snk ''answer'' (AnswerData answer) st6) (\<lambda>st7.
          and_then (if (case include_metadata options of None \<Rightarrow> False | Some b \<Rightarrow> b)
                    then emit snk ''metadata'' (MetadataData elapsed (stats st7)) st7
                    else (None, st7)) (\<lambda>st8.
          emit snk ''complete''
            (CompleteData ''Agentic reading completed successfully'') st8)))))"
    unfolding try_block_def and_then_emit_accepted [OF acc] rc ..
  have A: "\<forall>answer steps. reasoning_outcome run = Answered answer steps \<longrightarrow>
            fst (try_block snk fullContent options run elapsed st0) = None
            \<and> count_events ''answer'' (snd (try_block snk fullContent options run elapsed st0))
                = Suc (count_events ''answer'' st0)"
  proof (intro allI impI)
    fix answer steps assume "reasoning_outcome run = Answered answer steps"
    then show "fst (try_block snk fullContent options run elapsed st0) = None
            \<and> count_events ''answer'' (snd (try_block snk fullContent options run elapsed st0))
                = Suc (count_events ''answer'' st0)"
      unfolding head using acc c4
      by (cases "case include_metadata options of None \<Rightarrow> False | Some b \<Rightarrow> b")
        (simp_all add: Let_def and_then_emit_accepted emit_def and_then_def count_emitEvent
          del: show_nat.simps)
  qed
  have B: "\<forall>v. reasoning_outcome run = Failed v \<longrightarrow>
            fst (try_block snk fullContent options run elapsed st0) = Some v
            \<and> count_events ''answer'' (snd (try_block snk fullContent options run elapsed st0))
                = count_events ''answer'' st0"
    unfolding head using c4 by simp
  show ?thesis by (rule conjI [OF A B])
qed

lemma catch_block_accepted:
  assumes acc: "\<forall>history ev. snk history ev = None"
  shows "catch_block snk (Thrown e) st =
           (Fulfilled, emitEvent ''error''
              (ErrorData (case e of JsError None \<Rightarrow> ''An error occurred during reading''
                          | JsError (Some msg) \<Rightarrow>
                              if msg = [] then ''An error occurred during reading'' else msg)) st)"
    and "catch_block snk ThrownUndefined st = (RejectedWith (type_error ''undefined''), st)"
    and "catch_block snk ThrownNull st = (RejectedWith (type_error ''null''), st)"
  using acc
  by (cases e; simp add: catch_block_def emit_def split: option.splits)+

lemma session_accepted:
  fixes question fullContent :: string and chunksWithSummaries :: "MarkdownChunkWithSummary list"
    and snk :: sink and options :: AgenticReaderOptions and run :: reasoning_run
    and elapsed :: int
  assumes acc: "\<forall>history ev. snk history ev = None"
  defines "r \<equiv> agenticReaderWithEvents question fullContent chunksWithSummaries snk options run elapsed"
  shows "(\<forall>answer steps. reasoning_outcome run = Answered answer steps \<longrightarrow>
            fst r = Fulfilled \<and> count_events ''answer'' (snd r) = 1
            \<and> count_events ''error'' (snd r) = 0)
       \<and> (\<forall>e. reasoning_outcome run = Failed (Thrown e) \<longrightarrow>
            fst r = Fulfilled \<and> count_events ''answer'' (snd r) = 0
            \<and> count_events ''error'' (snd r) = 1)
       \<and> (reasoning_outcome run = Failed ThrownUndefined \<or> reasoning_outcome run = Failed ThrownNull \<longrightarrow>
            fst r \<noteq> Fulfilled \<and> count_events ''answer'' (snd r) = 0
            \<and> count_events ''error'' (snd r) = 0)"
proof -
  obtain t st where tb: "try_block snk fullContent options run elapsed new_session = (t, st)"
    by (cases "try_block snk fullContent options run elapsed new_session")
  from try_block_counts [of snk fullContent options run elapsed new_session] tb
  have err: "count_events ''error'' st = 0" by simp
  note ta = try_block_accepted [OF acc, of run fullContent options elapsed new_session]
  have A: "\<forall>answer steps. reasoning_outcome run = Answered answer steps \<longrightarrow>
            fst r = Fulfilled \<and> count_events ''answer'' (snd r) = 1
            \<and> count_events ''error'' (snd r) = 0"
  proof (intro allI impI)
    fix answer steps assume "reasoning_outcome run = Answered answer steps"
    with ta tb have "t = None" "count_events ''answer'' st = 1" by simp_all
    with tb err show "fst r = Fulfilled \<and> count_events ''answer'' (snd r) = 1
            \<and> count_events ''error'' (snd r) = 0"
      by (simp add: r_def agenticReaderWithEvents_def)
  qed
  have failed: "t = Some v \<and> count_events ''answer'' st = 0"
    if "reasoning_outcome run = Failed v" for v
    using ta tb that by simp
  have B: "\<forall>e. reasoning_outcome run = Failed (Thrown e) \<longrightarrow>
            fst r = Fulfilled \<and> count_events ''answer'' (snd r) = 0
            \<and> count_events ''error'' (snd r) = 1"
  proof (intro allI impI)
    fix e assume "reasoning_outcome run = Failed (Thrown e)"
    from failed [OF this] tb err catch_block_accepted(1) [OF acc, of e st]
    show "fst r = Fulfilled \<and> count_events ''answer'' (snd r) = 0
            \<and> count_events ''error'' (snd r) = 1"
      by (simp add: r_def agenticReaderWithEvents_def count_emitEvent)
  qed
  have C: "reasoning_outcome run = Failed ThrownUndefined \<or> reasoning_outcome run = Failed ThrownNull \<longrightarrow>
            fst r \<noteq> Fulfilled \<and> count_events ''answer'' (snd r) = 0
            \<and> count_events ''error'' (snd r) = 0"
  proof
    assume "reasoning_outcome run = Failed ThrownUndefined \<or> reasoning_outcome run = Failed ThrownNull"
    then show "fst r \<noteq> Fulfilled \<and> count_events ''answer'' (snd r) = 0
            \<and> count_events ''error'' (snd r) = 0"
    proof
      assume "reasoning_outcome run = Failed ThrownUndefined"
      from failed [OF this] tb err catch_block_accepted(2) [OF acc, of st]
      show ?thesis by (simp add: r_def agenticReaderWithEvents_def)
    next
      assume "reasoning_outcome run = Failed ThrownNull"
      from failed [OF this] tb err catch_block_accepted(3) [OF acc, of st]
      show ?thesis by (simp add: r_def agenticReaderWithEvents_def)
    qed
  qed
  show ?thesis by (rule conjI [OF A conjI [OF B C]])
qed

section \<open>Claims\<close>

text \<open>
  C1. With \<open>chunkSize \<le> overlap\<close> the step size is not positive, and the chunker makes no
  check of its configuration: on every non-empty text longer than \<open>chunkSize\<close> the loop
  pushes chunks from a position that never advances past the end of the text, and the
  call never returns (\<open>None\<close>). No configuration error is raised.
\<close>

theorem C1_nonpositive_step_never_returns:
  "chunkSize \<le> overlap \<Longrightarrow> chunkSize < int (length markdown) \<Longrightarrow> markdown \<noteq> [] \<Longrightarrow>
   htmlToMarkdownChunks markdown chunkSize overlap = None"
  using chunk_loop_diverges [of "chunkSize - overlap" 0 markdown chunkSize "[]"]
  by (simp add: htmlToMarkdownChunks_def)

theorem C1_nonpositive_step_never_returns_witness:
  "(2::int) \<le> 5 \<and> 2 < int (length ''abc'') \<and> ''abc'' \<noteq> []
   \<and> htmlToMarkdownChunks ''abc'' 2 5 = None
   \<and> htmlToMarkdownChunks ''abc'' 2 2 = None"
  using C1_nonpositive_step_never_returns [of 2 5 "''abc''"]
    C1_nonpositive_step_never_returns [of 2 2 "''abc''"]
  by simp

text \<open>
  C2 (as amended). A session hands at most one \<open>answer\<close> event and at most one \<open>error\<close>
  event to the sink, whatever the sink and the reasoning call do. When the sink never
  throws and the reasoning call does not throw \<^verbatim>\<open>undefined\<close> or \<^verbatim>\<open>null\<close>, the function
  returns and the session has exactly one terminal event: one \<open>answer\<close> and no \<open>error\<close>
  when the reasoning call returns, one \<open>error\<close> and no \<open>answer\<close> when it throws; the events
  of the tools are never terminal.
\<close>

theorem C2_one_terminal_event:
  fixes question fullContent :: string and chunksWithSummaries :: "MarkdownChunkWithSummary list"
    and snk :: sink and options :: AgenticReaderOptions and run :: reasoning_run
    and elapsed :: int
  defines "r \<equiv> agenticReaderWithEvents question fullContent chunksWithSummaries snk options run elapsed"
  shows "count_events ''answer'' (snd r) \<le> 1 \<and> count_events ''error'' (snd r) \<le> 1
     \<and> ((\<forall>history ev. snk history ev = None)
          \<and> reasoning_outcome run \<noteq> Failed ThrownUndefined
          \<and> reasoning_outcome run \<noteq> Failed ThrownNull \<longrightarrow>
          fst r = Fulfilled
          \<and> ((count_events ''answer'' (snd r) = 1 \<and> count_events ''error'' (snd r) = 0
               \<and> (\<exists>answer steps. reasoning_outcome run = Answered answer steps))
            \<or> (count_events ''answer'' (snd r) = 0 \<and> count_events ''error'' (snd r) = 1
               \<and> (\<exists>e. reasoning_outcome run = Failed (Thrown e)))))"
proof -
  have b1: "count_events ''answer'' (snd r) \<le> 1"
    and b2: "count_events ''error'' (snd r) \<le> 1"
    unfolding r_def using session_bounds by simp_all
  have one: "(\<forall>history ev. snk history ev = None)
          \<and> reasoning_outcome run \<noteq> Failed ThrownUndefined
          \<and> reasoning_outcome run \<noteq> Failed ThrownNull \<longrightarrow>
          fst r = Fulfilled
          \<and> ((count_events ''answer'' (snd r) = 1 \<and> count_events ''error'' (snd r) = 0
               \<and> (\<exists>answer steps. reasoning_outcome run = Answered answer steps))
            \<or> (count_events ''answer'' (snd r) = 0 \<and> count_events ''error'' (snd r) = 1
               \<and> (\<exists>e. reasoning_outcome run = Failed (Thrown e))))"
  proof
    assume h: "(\<forall>history ev. snk history ev = None)
          \<and> reasoning_outcome run \<noteq> Failed ThrownUndefined
          \<and> reasoning_outcome run \<noteq> Failed ThrownNull"
    then have acc: "\<forall>history ev. snk history ev = None" by simp
    note sa = session_accepted [OF acc, where question = question
        and fullContent = fullContent and chunksWithSummaries = chunksWithSummaries
        and options = options and run = run and elapsed = elapsed, folded r_def]
    show "fst r = Fulfilled
          \<and> ((count_events ''answer'' (snd r) = 1 \<and> count_events ''error'' (snd r) = 0
               \<and> (\<exists>answer steps. reasoning_outcome run = Answered answer steps))
            \<or> (count_events ''answer'' (snd r) = 0 \<and> count_events ''error'' (snd r) = 1
               \<and> (\<exists>e. reasoning_outcome run = Failed (Thrown e))))"
    proof (cases "reasoning_outcome run")
      case (Answered answer steps)
      with sa show ?thesis by simp
    next
      case (Failed v)
      with h obtain e where "v = Thrown e" by (cases v) simp_all
      with Failed sa show ?thesis by simp
    qed
  qed
  show ?thesis by (rule conjI [OF b1 conjI [OF b2 one]])
qed

theorem C2_one_terminal_event_witness:
  "(\<forall>history ev. accepting history ev = None)
   \<and> map fst (events (snd (agenticReaderWithEvents ''What is the quantum yield?''
       ''0123456789 quantum yield'' [] accepting
       \<lparr>max_iterations = Some 3, model = None, include_metadata = Some True\<rparr>
       \<lparr>tool_trace = [InvokeReadContent 0 5],
        on_tool_throw = Some, reasoning_outcome = Answered ''0.85'' 3\<rparr> 1200)))
     = [''status'', ''status'', ''status'', ''tool_call'', ''content_read'', ''status'',
        ''answer'', ''metadata'', ''complete'']
   \<and> count_events ''answer'' (snd (agenticReaderWithEvents ''What is the quantum yield?''
       ''0123456789 quantum yield'' [] accepting
       \<lparr>max_iterations = Some 3, model = None, include_metadata = Some True\<rparr>
       \<lparr>tool_trace = [InvokeReadContent 0 5],
        on_tool_throw = Some, reasoning_outcome = Answered ''0.85'' 3\<rparr> 1200)) = 1
   \<and> count_events ''error'' (snd (agenticReaderWithEvents ''What is the quantum yield?''
       ''0123456789 quantum yield'' [] accepting
       \<lparr>max_iterations = Some 3, model = None, include_metadata = Some True\<rparr>
       \<lparr>tool_trace = [InvokeReadContent 0 5],
        on_tool_throw = Some, reasoning_outcome = Answered ''0.85'' 3\<rparr> 1200)) = 0
   \<and> agenticReaderWithEvents ''What is the quantum yield?'' ''0123456789 quantum yield'' []
       accepting \<lparr>max_iterations = None, model = None, include_metadata = None\<rparr>
       \<lparr>tool_trace = [], on_tool_throw = Some,
        reasoning_outcome = Failed (Thrown (JsError None))\<rparr> 1200
     = (Fulfilled,
        \<lparr>events =
           [(''status'', StatusData ''starting'' ''Initializing agentic reader...''),
            (''status'', StatusDocumentData ''document_loaded''
                           ''Document loaded: 24 characters'' 24),
            (''status'', StatusData ''exploring'' ''Agent is exploring the document...''),
            (''error'', ErrorData ''An error occurred during reading'')],
         stats = \<lparr>tool_calls = 0, content_reads = 0, figure_analyses = 0,
                  search_iterations = 0\<rparr>\<rparr>)"
proof -
  let ?run = "\<lparr>tool_trace = [InvokeReadContent 0 5],
        on_tool_throw = Some, reasoning_outcome = Answered ''0.85'' 3\<rparr>"
  let ?r = "agenticReaderWithEvents ''What is the quantum yield?''
       ''0123456789 quantum yield'' [] accepting
       \<lparr>max_iterations = Some 3, model = None, include_metadata = Some True\<rparr> ?run 1200"
  have acc: "\<forall>history ev. accepting history ev = None" by (simp add: accepting_def)
  have names: "map fst (events (snd ?r))
     = [''status'', ''status'', ''status'', ''tool_call'', ''content_read'', ''status'',
        ''answer'', ''metadata'', ''complete'']"
    by code_simp
  have failed: "agenticReaderWithEvents ''What is the quantum yield?''
       ''0123456789 quantum yield'' []
       accepting \<lparr>max_iterations = None, model = None, include_metadata = None\<rparr>
       \<lparr>tool_trace = [], on_tool_throw = Some,
        reasoning_outcome = Failed (Thrown (JsError None))\<rparr> 1200
     = (Fulfilled,
        \<lparr>events =
           [(''status'', StatusData ''starting'' ''Initializing agentic reader...''),
            (''status'', StatusDocumentData ''document_loaded''
                           ''Document loaded: 24 characters'' 24),
            (''status'', StatusData ''exploring'' ''Agent is exploring the document...''),
            (''error'', ErrorData ''An error occurred during reading'')],
         stats = \<lparr>tool_calls = 0, content_reads = 0, figure_analyses = 0,
                  search_iterations = 0\<rparr>\<rparr>)"
    by code_simp
  from C2_one_terminal_event [of "''What is the quantum yield?''" "''0123456789 quantum yield''"
      "[]" accepting "\<lparr>max_iterations = Some 3, model = None, include_metadata = Some True\<rparr>"
      ?run 1200] acc
  have "count_events ''answer'' (snd ?r) = 1 \<and> count_events ''error'' (snd ?r) = 0" by simp
  with acc names failed show ?thesis by blast
qed

text \<open>
  C2 as stated fails. When the reasoning call throws \<^verbatim>\<open>undefined\<close>, reading
  \<^verbatim>\<open>error.message\<close> in the \<^verbatim>\<open>catch\<close> block throws: the session has neither an \<open>answer\<close> nor
  an \<open>error\<close> event and the promise is rejected. When the sink throws on the \<open>complete\<close>
  event, after it has taken the \<open>answer\<close> event, the \<^verbatim>\<open>catch\<close> block emits \<open>error\<close> as well:
  the session has both.
\<close>

theorem C2_neither_or_both_counterexample:
  "agenticReaderWithEvents ''What is the quantum yield?'' ''0123456789 quantum yield'' []
       accepting \<lparr>max_iterations = None, model = None, include_metadata = None\<rparr>
       \<lparr>tool_trace = [], on_tool_throw = Some, reasoning_outcome = Failed ThrownUndefined\<rparr> 1200
     = (RejectedWith (type_error ''undefined''),
        \<lparr>events =
           [(''status'', StatusData ''starting'' ''Initializing agentic reader...''),
            (''status'', StatusDocumentData ''document_loaded''
                           ''Document loaded: 24 characters'' 24),
            (''status'', StatusData ''exploring'' ''Agent is exploring the document...'')],
         stats = \<lparr>tool_calls = 0, content_reads = 0, figure_analyses = 0,
                  search_iterations = 0\<rparr>\<rparr>)
   \<and> count_events ''answer'' (snd (agenticReaderWithEvents ''What is the quantum yield?''
       ''0123456789 quantum yield'' []
       accepting \<lparr>max_iterations = None, model = None, include_metadata = None\<rparr>
       \<lparr>tool_trace = [], on_tool_throw = Some, reasoning_outcome = Failed ThrownUndefined\<rparr>
       1200)) = 0
   \<and> count_events ''error'' (snd (agenticReaderWithEvents ''What is the quantum yield?''
       ''0123456789 quantum yield'' []
       accepting \<lparr>max_iterations = None, model = None, include_metadata = None\<rparr>
       \<lparr>tool_trace = [], on_tool_throw = Some, reasoning_outcome = Failed ThrownUndefined\<rparr>
       1200)) = 0
   \<and> map fst (events (snd (agenticReaderWithEvents ''What is the quantum yield?''
       ''0123456789 quantum yield'' []
       (throws_on ''complete'' (Thrown (JsError (Some ''stream closed''))))
       \<lparr>max_iterations = None, model = None, include_metadata = None\<rparr>
       \<lparr>tool_trace = [], on_tool_throw = Some, reasoning_outcome = Answered ''0.85'' 1\<rparr>
       1200)))
     = [''status'', ''status'', ''status'', ''status'', ''answer'', ''complete'', ''error'']
   \<and> count_events ''answer'' (snd (agenticReaderWithEvents ''What is the quantum yield?''
       ''0123456789 quantum yield'' []
       (throws_on ''complete'' (Thrown (JsError (Some ''stream closed''))))
       \<lparr>max_iterations = None, model = None, include_metadata = None\<rparr>
       \<lparr>tool_trace = [], on_tool_throw = Some, reasoning_outcome = Answered ''0.85'' 1\<rparr>
       1200)) = 1
   \<and> count_events ''error'' (snd (agenticReaderWithEvents ''What is the quantum yield?''
       ''0123456789 quantum yield'' []
       (throws_on ''complete'' (Thrown (JsError (Some ''stream closed''))))
       \<lparr>max_iterations = None, model = None, include_metadata = None\<rparr>
       \<lparr>tool_trace = [], on_tool_throw = Some, reasoning_outcome = Answered ''0.85'' 1\<rparr>
       1200)) = 1"
  by code_simp

text \<open>
  C3 (as amended). For every text of length \<open>L\<close> and every \<open>chunkSize\<close>, \<open>overlap\<close> with
  \<open>0 \<le> overlap < chunkSize\<close> the chunker returns a sequence whose spans cover \<open>[0, L)\<close>;
  every two consecutive chunks share exactly \<open>chunkSize - stepSize\<close> characters (the final
  pair included); every chunk's \<open>totalChunks\<close> is the length of the sequence; chunks are
  numbered in order and hold the text of their span; and when \<open>L \<le> chunkSize\<close> the
  sequence is the single chunk \<open>[0, L)\<close> with \<open>totalChunks = 1\<close>.
\<close>

theorem C3_chunker_coverage:
  assumes "0 \<le> overlap" "overlap < chunkSize"
  shows "\<exists>cs. htmlToMarkdownChunks md chunkSize overlap = Some cs
     \<and> (\<forall>p. 0 \<le> p \<and> p < int (length md) \<longrightarrow> (\<exists>c \<in> set cs. covers c p))
     \<and> (\<forall>k. Suc k < length cs \<longrightarrow>
           shared_chars (cs ! k) (cs ! Suc k) = chunkSize - (chunkSize - overlap))
     \<and> (\<forall>c \<in> set cs. totalChunks c = length cs)
     \<and> (\<forall>k < length cs. chunkIndex (cs ! k) = k
           \<and> 0 \<le> startChar (cs ! k) \<and> endChar (cs ! k) \<le> int (length md)
           \<and> content (cs ! k) = js_slice md (startChar (cs ! k)) (endChar (cs ! k)))
     \<and> (int (length md) \<le> chunkSize \<longrightarrow>
           cs = [\<lparr>content = md, chunkIndex = 0, startChar = 0,
                  endChar = int (length md), totalChunks = 1\<rparr>])"
proof (cases "int (length md) \<le> chunkSize")
  case True
  let ?c = "\<lparr>content = md, chunkIndex = 0, startChar = 0,
              endChar = int (length md), totalChunks = 1\<rparr>"
  have "htmlToMarkdownChunks md chunkSize overlap = Some [?c]"
    using True by (rule single_chunk)
  moreover have "js_slice md 0 (int (length md)) = md"
    by (simp add: js_slice_def js_index_def)
  ultimately show ?thesis
    by (intro exI [of _ "[?c]"]) (simp add: covers_def)
next
  case False
  let ?L = "int (length md)"
  let ?s = "chunkSize - overlap"
  from False assms have "chunkSize < ?L" by simp
  from chunks_long [OF assms this] obtain cs where cs:
    "htmlToMarkdownChunks md chunkSize overlap = Some cs" "cs \<noteq> []"
    "\<forall>k < length cs. chunkIndex (cs ! k) = k \<and> totalChunks (cs ! k) = length cs
        \<and> startChar (cs ! k) = int k * ?s
        \<and> endChar (cs ! k) = min (int k * ?s + chunkSize) ?L
        \<and> content (cs ! k) = js_slice md (startChar (cs ! k)) (endChar (cs ! k))"
    "\<forall>k. Suc k < length cs \<longrightarrow> int k * ?s + chunkSize < ?L"
    "?L \<le> int (length cs - 1) * ?s + chunkSize"
    by blast
  have spos: "0 < ?s" "?s \<le> chunkSize" using assms by auto
  have start: "\<And>k. k < length cs \<Longrightarrow> startChar (cs ! k) = int k * ?s" using cs(3) by simp
  have fin_mid: "endChar (cs ! k) = int k * ?s + chunkSize" if "Suc k < length cs" for k
  proof -
    from that have "k < length cs" by simp
    with cs(3) have "endChar (cs ! k) = min (int k * ?s + chunkSize) ?L" by blast
    moreover from cs(4) that have "int k * ?s + chunkSize < ?L" by blast
    ultimately show ?thesis by simp
  qed
  have fin_last: "endChar (last cs) = ?L"
    using cs(2,3,5) by (simp add: last_conv_nth min_def)
  have chain: "\<forall>k. Suc k < length cs \<longrightarrow> startChar (cs ! Suc k) \<le> endChar (cs ! k)"
  proof (intro allI impI)
    fix k assume k: "Suc k < length cs"
    have "startChar (cs ! Suc k) = int k * ?s + ?s"
      using start [OF k] by (simp add: algebra_simps)
    moreover have "endChar (cs ! k) = int k * ?s + chunkSize" using fin_mid [OF k] .
    ultimately show "startChar (cs ! Suc k) \<le> endChar (cs ! k)" using spos by simp
  qed
  have cover: "\<forall>p. 0 \<le> p \<and> p < ?L \<longrightarrow> (\<exists>c \<in> set cs. covers c p)"
  proof (intro allI impI)
    fix p assume "0 \<le> p \<and> p < ?L"
    then have "startChar (cs ! 0) \<le> p" "p < endChar (last cs)"
      using start [of 0] cs(2) fin_last by simp_all
    from chain_cover [OF cs(2) chain this] show "\<exists>c \<in> set cs. covers c p" .
  qed
  have shared: "\<forall>k. Suc k < length cs \<longrightarrow>
      shared_chars (cs ! k) (cs ! Suc k) = chunkSize - ?s"
  proof (intro allI impI)
    fix k assume k: "Suc k < length cs"
    then have e: "endChar (cs ! k) = int k * ?s + chunkSize"
      and s0: "startChar (cs ! k) = int k * ?s"
      and s1: "startChar (cs ! Suc k) = int k * ?s + ?s"
      using fin_mid [OF k] start [of k] start [of "Suc k"] by (simp_all add: algebra_simps)
    have e1: "endChar (cs ! Suc k) = min (int k * ?s + ?s + chunkSize) ?L"
      using cs(3) k by (simp add: algebra_simps)
    have "int k * ?s + chunkSize < ?L" using cs(4) k by simp
    with e s0 s1 e1 spos show "shared_chars (cs ! k) (cs ! Suc k) = chunkSize - ?s"
      by (simp add: shared_chars_def min_def max_def)
  qed
  have total: "\<forall>c \<in> set cs. totalChunks c = length cs"
    using cs(3) by (auto simp: in_set_conv_nth)
  have each: "\<forall>k < length cs. chunkIndex (cs ! k) = k
           \<and> 0 \<le> startChar (cs ! k) \<and> endChar (cs ! k) \<le> ?L
           \<and> content (cs ! k) = js_slice md (startChar (cs ! k)) (endChar (cs ! k))"
    using cs(3) spos by simp
  from cs(1) cover shared total each False show ?thesis by blast
qed

theorem C3_chunker_coverage_witness:
  "(0::int) \<le> 1 \<and> (1::int) < 5
   \<and> htmlToMarkdownChunks ''abcdefghijkl'' 5 1 =
       Some [\<lparr>content = ''abcde'', chunkIndex = 0, startChar = 0, endChar = 5, totalChunks = 3\<rparr>,
             \<lparr>content = ''efghi'', chunkIndex = 1, startChar = 4, endChar = 9, totalChunks = 3\<rparr>,
             \<lparr>content = ''ijkl'', chunkIndex = 2, startChar = 8, endChar = 12, totalChunks = 3\<rparr>]
   \<and> (\<exists>cs. htmlToMarkdownChunks ''abcdefghijkl'' 5 1 = Some cs
         \<and> (\<exists>c \<in> set cs. covers c 7)
         \<and> shared_chars (cs ! 0) (cs ! 1) = 1 \<and> shared_chars (cs ! 1) (cs ! 2) = 1)"
proof -
  have run: "htmlToMarkdownChunks ''abcdefghijkl'' 5 1 =
       Some [\<lparr>content = ''abcde'', chunkIndex = 0, startChar = 0, endChar = 5, totalChunks = 3\<rparr>,
             \<lparr>content = ''efghi'', chunkIndex = 1, startChar = 4, endChar = 9, totalChunks = 3\<rparr>,
             \<lparr>content = ''ijkl'', chunkIndex = 2, startChar = 8, endChar = 12, totalChunks = 3\<rparr>]"
    by code_simp
  have h: "(0::int) \<le> 1" "(1::int) < 5" by simp_all
  from C3_chunker_coverage [OF h, of "''abcdefghijkl''"] obtain cs where cs:
    "htmlToMarkdownChunks ''abcdefghijkl'' 5 1 = Some cs"
    "\<forall>p. 0 \<le> p \<and> p < int (length ''abcdefghijkl'') \<longrightarrow> (\<exists>c \<in> set cs. covers c p)"
    "\<forall>k. Suc k < length cs \<longrightarrow> shared_chars (cs ! k) (cs ! Suc k) = 5 - (5 - 1)"
    by blast
  have len: "length cs = 3" using cs(1) unfolding run by auto
  have a: "\<exists>c \<in> set cs. covers c 7" using cs(2) [rule_format, of 7] by simp
  have b: "shared_chars (cs ! 0) (cs ! 1) = 1"
    using cs(3) [rule_format, of 0] len by simp
  have c: "shared_chars (cs ! 1) (cs ! 2) = 1"
    using cs(3) [rule_format, of 1] len by (simp add: numeral_2_eq_2)
  from cs(1) a b c have "\<exists>cs. htmlToMarkdownChunks ''abcdefghijkl'' 5 1 = Some cs
         \<and> (\<exists>c \<in> set cs. covers c 7)
         \<and> shared_chars (cs ! 0) (cs ! 1) = 1 \<and> shared_chars (cs ! 1) (cs ! 2) = 1"
    by blast
  with run h show ?thesis by blast
qed

text \<open>
  C3 as stated (any \<open>overlap < chunkSize\<close>) fails for a negative overlap: the step then
  exceeds the chunk size and position 2 of a five-character text lies in no chunk.
\<close>

theorem C3_negative_overlap_counterexample:
  "(- 1 :: int) < 2
   \<and> htmlToMarkdownChunks ''abcde'' 2 (- 1) =
       Some [\<lparr>content = ''ab'', chunkIndex = 0, startChar = 0, endChar = 2, totalChunks = 2\<rparr>,
             \<lparr>content = ''de'', chunkIndex = 1, startChar = 3, endChar = 5, totalChunks = 2\<rparr>]
   \<and> \<not> covers \<lparr>content = ''ab'', chunkIndex = 0, startChar = 0, endChar = 2, totalChunks = 2\<rparr> 2
   \<and> \<not> covers \<lparr>content = ''de'', chunkIndex = 1, startChar = 3, endChar = 5, totalChunks = 2\<rparr> 2"
  by code_simp

text \<open>
  C4 (as amended). readContent returns a failure value exactly when a position lies
  outside \<open>[0, length]\<close> or the start is not before the end. For a position out of
  bounds the message names the position and carries the document length; for a start
  that is not before the end (both in bounds) the message names the two positions only.
  Otherwise the call succeeds with the substring \<open>[start, end)\<close>, \<open>hasMoreBefore\<close> true
  iff the start is positive and \<open>hasMoreAfter\<close> true iff the end is before the length;
  on a non-empty document the span \<open>(0, length)\<close> returns the whole content with both
  flags false.
\<close>

theorem C4_readContent:
  fixes doc :: string and s e :: int
  defines "len \<equiv> int (length doc)"
  shows
   "((\<exists>msg. fst (readContent doc s e st) = ReadFailure msg)
       \<longleftrightarrow> (s < 0 \<or> s > len \<or> e < 0 \<or> e > len \<or> s \<ge> e))
    \<and> ((s < 0 \<or> s > len \<or> e < 0 \<or> e > len) \<longrightarrow>
          (\<exists>msg. fst (readContent doc s e st) = ReadFailure msg \<and> msg \<noteq> []
                 \<and> sublist (show_int len) msg))
    \<and> (0 \<le> s \<and> s \<le> len \<and> 0 \<le> e \<and> e \<le> len \<and> s \<ge> e \<longrightarrow>
          fst (readContent doc s e st) =
            ReadFailure (''startPosition ('' @ show_int s
              @ '') must be less than endPosition ('' @ show_int e @ '').''))
    \<and> (0 \<le> s \<and> s < e \<and> e \<le> len \<longrightarrow>
          fst (readContent doc s e st) =
            ReadSuccess (take (nat (e - s)) (drop (nat s) doc))
              \<lparr>startPosition = s, endPosition = e, contentLength = nat (e - s),
               totalDocumentLength = length doc,
               hasMoreBefore = (s > 0), hasMoreAfter = (e < len)\<rparr>)
    \<and> (doc \<noteq> [] \<longrightarrow>
          fst (readContent doc 0 len st) =
            ReadSuccess doc
              \<lparr>startPosition = 0, endPosition = len, contentLength = length doc,
               totalDocumentLength = length doc,
               hasMoreBefore = False, hasMoreAfter = False\<rparr>)"
proof -
  have A: "(\<exists>msg. fst (readContent doc s e st) = ReadFailure msg)
       \<longleftrightarrow> (s < 0 \<or> s > len \<or> e < 0 \<or> e > len \<or> s \<ge> e)"
    by (auto simp: readContent_def Let_def len_def)
  let ?tail = "''. Document length is '' @ show_int len @ '' characters.''"
  have B1: "s < 0 \<or> s > len \<Longrightarrow> fst (readContent doc s e st) =
      ReadFailure (''Invalid startPosition '' @ show_int s @ ?tail)"
    by (simp add: readContent_def Let_def len_def)
  have B2: "\<not> (s < 0 \<or> s > len) \<Longrightarrow> e < 0 \<or> e > len \<Longrightarrow> fst (readContent doc s e st) =
      ReadFailure (''Invalid endPosition '' @ show_int e @ ?tail)"
    by (simp add: readContent_def Let_def len_def)
  have B3: "\<And>a b. sublist (show_int len) (a @ b @ ?tail)"
    using sublist_mid [of "show_int len" _ _ "''. Document length is ''" "'' characters.''"]
    by simp
  have B4: "\<And>b. ''Invalid startPosition '' @ b \<noteq> []" "\<And>b. ''Invalid endPosition '' @ b \<noteq> []"
    by simp_all
  have B: "(s < 0 \<or> s > len \<or> e < 0 \<or> e > len) \<longrightarrow>
          (\<exists>msg. fst (readContent doc s e st) = ReadFailure msg \<and> msg \<noteq> []
                 \<and> sublist (show_int len) msg)"
    using B1 B2 B3 B4 by metis
  have C: "0 \<le> s \<and> s \<le> len \<and> 0 \<le> e \<and> e \<le> len \<and> s \<ge> e \<longrightarrow>
          fst (readContent doc s e st) =
            ReadFailure (''startPosition ('' @ show_int s
              @ '') must be less than endPosition ('' @ show_int e @ '').'')"
    by (auto simp: readContent_def Let_def len_def)
  have D: "0 \<le> s \<and> s < e \<and> e \<le> len \<longrightarrow>
          fst (readContent doc s e st) =
            ReadSuccess (take (nat (e - s)) (drop (nat s) doc))
              \<lparr>startPosition = s, endPosition = e, contentLength = nat (e - s),
               totalDocumentLength = length doc,
               hasMoreBefore = (s > 0), hasMoreAfter = (e < len)\<rparr>"
    using js_slice_valid [of s e doc]
    by (auto simp: readContent_def Let_def len_def)
  have E: "doc \<noteq> [] \<longrightarrow>
          fst (readContent doc 0 len st) =
            ReadSuccess doc
              \<lparr>startPosition = 0, endPosition = len, contentLength = length doc,
               totalDocumentLength = length doc,
               hasMoreBefore = False, hasMoreAfter = False\<rparr>"
    using js_slice_valid [of 0 len doc]
    by (auto simp: readContent_def Let_def len_def)
  from A B C D E show ?thesis by blast
qed

theorem C4_readContent_witness:
  "fst (readContent ''0123456789'' (- 1) 10 new_session) =
     ReadFailure ''Invalid startPosition -1. Document length is 10 characters.''
   \<and> fst (readContent ''0123456789'' 5 5 new_session) =
     ReadFailure ''startPosition (5) must be less than endPosition (5).''
   \<and> fst (readContent ''0123456789'' 2 5 new_session) =
     ReadSuccess ''234''
       \<lparr>startPosition = 2, endPosition = 5, contentLength = 3, totalDocumentLength = 10,
        hasMoreBefore = True, hasMoreAfter = True\<rparr>
   \<and> fst (readContent ''0123456789'' 0 10 new_session) =
     ReadSuccess ''0123456789''
       \<lparr>startPosition = 0, endPosition = 10, contentLength = 10, totalDocumentLength = 10,
        hasMoreBefore = False, hasMoreAfter = False\<rparr>"
proof -
  have a: "fst (readContent ''0123456789'' (- 1) 10 new_session) =
     ReadFailure ''Invalid startPosition -1. Document length is 10 characters.''"
    by code_simp
  have b: "fst (readContent ''0123456789'' 5 5 new_session) =
     ReadFailure ''startPosition (5) must be less than endPosition (5).''"
  proof -
    have five: "show_int 5 = ''5''" by code_simp
    show ?thesis
      using C4_readContent [of "''0123456789''" 5 5 new_session] by (simp add: five)
  qed
  have c: "fst (readContent ''0123456789'' 2 5 new_session) =
     ReadSuccess ''234''
       \<lparr>startPosition = 2, endPosition = 5, contentLength = 3, totalDocumentLength = 10,
        hasMoreBefore = True, hasMoreAfter = True\<rparr>"
    using C4_readContent [of "''0123456789''" 2 5 new_session] by simp
  have d: "fst (readContent ''0123456789'' 0 10 new_session) =
     ReadSuccess ''0123456789''
       \<lparr>startPosition = 0, endPosition = 10, contentLength = 10, totalDocumentLength = 10,
        hasMoreBefore = False, hasMoreAfter = False\<rparr>"
    using C4_readContent [of "''0123456789''" 0 10 new_session] by simp
  from a b c d show ?thesis by blast
qed

text \<open>
  C4 as stated fails: on a document of 10 characters the span \<open>(3, 2)\<close> is refused with a
  message that does not contain the document length; and on the empty document the span
  \<open>(0, length)\<close> is refused, since its start is not before its end.
\<close>

theorem C4_message_without_length_counterexample:
  "fst (readContent ''0123456789'' 3 2 new_session) =
     ReadFailure ''startPosition (3) must be less than endPosition (2).''
   \<and> \<not> sublist (show_int (int (length ''0123456789'')))
          ''startPosition (3) must be less than endPosition (2).''
   \<and> fst (readContent [] 0 (int (length ([] :: string))) new_session) =
     ReadFailure ''startPosition (0) must be less than endPosition (0).''"
  by code_simp






text \<open>
  C7. Before a reasoning step, a history of more than 20 messages is presented as its
  first message followed by its last 20 messages (21 in all, the first message always
  kept); a history of at most 20 messages is presented unchanged.
\<close>

theorem C7_truncation:
  "presented_messages messages =
     (if length messages > 20
      then hd messages # drop (length messages - 20) messages
      else messages)
   \<and> (length messages > 20 \<longrightarrow>
        length (presented_messages messages) = 21
        \<and> hd (presented_messages messages) = hd messages
        \<and> tl (presented_messages messages) = drop (length messages - 20) messages)"
proof (cases "length messages > 20")
  case True
  then have ne: "messages \<noteq> []" by auto
  have "js_slice_from messages (- int 20) = drop (length messages - 20) messages"
    using True by (intro js_slice_from_last) simp_all
  then have "presented_messages messages
      = hd messages # drop (length messages - 20) messages"
    using True ne by (simp add: presented_messages_def prepareStep_def hd_conv_nth)
  then show ?thesis using True by simp
next
  case False
  then show ?thesis by (simp add: presented_messages_def prepareStep_def)
qed

theorem C7_truncation_witness:
  "presented_messages [0 ..< 25] = 0 # [5 ..< 25]
   \<and> length (presented_messages [0 ..< 25]) = 21"
  using C7_truncation [of "[0 ..< 25]"] by (simp add: upt_conv_Cons)

text \<open>
  C8. With at least one worker, a text-generation call that fails while the operation is
  still running (every earlier completion returned a text, and fewer completions than
  chunks came before it) makes the whole operation fail with that error. Whenever the
  operation returns a sequence, no slot of it is empty and every one of the calls (one per
  chunk) returned a text: no partial result is ever returned.
\<close>

theorem C8_failure_is_fatal:
  fixes chunks :: "MarkdownChunk list" and maxConcurrency :: int
  assumes "1 \<le> maxConcurrency"
  shows "((\<forall>ev \<in> set pre. is_success ev) \<and> length pre < length chunks \<longrightarrow>
          generateChunkSummaries chunks maxConcurrency (pre @ Completion k (Throws e) # post)
            = Some (Inl e))
     \<and> (\<forall>schedule rs. generateChunkSummaries chunks maxConcurrency schedule = Some (Inr rs) \<longrightarrow>
           length rs = length chunks \<and> None \<notin> set rs
           \<and> length chunks \<le> length schedule
           \<and> (\<forall>ev \<in> set (take (length chunks) schedule). is_success ev))"
proof -
  let ?p = "start_workers (nat (min maxConcurrency (int (length chunks)))) (initial_pool chunks)"
  from started_pool [OF assms, of chunks]
  have inv: "pool_inv chunks ?p" and rem: "remaining ?p = length chunks" by simp_all
  have 1: "(\<forall>ev \<in> set pre. is_success ev) \<and> length pre < length chunks \<longrightarrow>
          generateChunkSummaries chunks maxConcurrency (pre @ Completion k (Throws e) # post)
            = Some (Inl e)"
    using run_failure [OF inv, of pre k e post] rem by (simp add: generateChunkSummaries_def)
  have 2: "\<forall>schedule rs. generateChunkSummaries chunks maxConcurrency schedule = Some (Inr rs) \<longrightarrow>
           length rs = length chunks \<and> None \<notin> set rs
           \<and> length chunks \<le> length schedule
           \<and> (\<forall>ev \<in> set (take (length chunks) schedule). is_success ev)"
  proof (intro allI impI)
    fix schedule rs
    assume "generateChunkSummaries chunks maxConcurrency schedule = Some (Inr rs)"
    then have run: "run_pool schedule ?p = Some (Inr rs)" by (simp add: generateChunkSummaries_def)
    from run_safety [OF inv run] have ord: "in_chunk_order chunks rs" .
    then have "length rs = length chunks" "None \<notin> set rs"
      by (simp add: in_chunk_order_def, rule in_chunk_order_full)
    with run_success_only [OF inv run] rem
    show "length rs = length chunks \<and> None \<notin> set rs
           \<and> length chunks \<le> length schedule
           \<and> (\<forall>ev \<in> set (take (length chunks) schedule). is_success ev)" by simp
  qed
  from 1 2 show ?thesis by blast
qed

theorem C8_failure_is_fatal_witness:
  "(1::int) \<le> 8
   \<and> is_success (Completion 2 (Returns ''first done'')) \<and> length [Completion 2 (Returns ''first done'')] < length example_chunks
   \<and> generateChunkSummaries example_chunks 8
        ([Completion 2 (Returns ''first done'')]
           @ Completion 0 (Throws (JsError (Some ''rate limit''))) # [Completion 0 (Returns ''late'')])
      = Some (Inl (JsError (Some ''rate limit'')))"
proof -
  have h: "(1::int) \<le> 8" by simp
  have a: "\<forall>ev \<in> set [Completion 2 (Returns ''first done'')]. is_success ev" by simp
  have b: "length [Completion 2 (Returns ''first done'')] < length example_chunks"
    by (simp add: example_chunks_def)
  from C8_failure_is_fatal [OF h, of "[Completion 2 (Returns ''first done'')]" example_chunks
      0 "JsError (Some ''rate limit'')" "[Completion 0 (Returns ''late'')]"] a b
  have "generateChunkSummaries example_chunks 8
        ([Completion 2 (Returns ''first done'')]
           @ Completion 0 (Throws (JsError (Some ''rate limit''))) # [Completion 0 (Returns ''late'')])
      = Some (Inl (JsError (Some ''rate limit'')))" by blast
  with h b show ?thesis by simp
qed

text \<open>
  C9. With at least one worker, whenever the summarizer returns, the result has one slot
  per chunk, every index below the number of chunks is the index of exactly one completed
  call, and slot \<open>i\<close> holds the fields of chunk \<open>i\<close> (content, chunkIndex, startChar,
  endChar, totalChunks) with, as summary, the text returned by the call that was issued
  for chunk \<open>i\<close>, in whatever order the calls completed. The summarizer returns whenever
  the first calls to complete, as many as there are chunks, return a text. Two runs over
  the same chunks, with any numbers of workers (1 and 8, say) and any completion orders,
  return arrays of the same length whose slots hold the same chunk fields.
\<close>

theorem C9_slots_by_index:
  fixes chunks :: "MarkdownChunk list" and maxConcurrency maxConcurrency' :: int
  assumes "1 \<le> maxConcurrency" "1 \<le> maxConcurrency'"
  shows "(\<forall>rs. generateChunkSummaries chunks maxConcurrency schedule = Some (Inr rs) \<longrightarrow>
            length rs = length chunks
            \<and> distinct (map (fst \<circ> snd) (completed_calls chunks maxConcurrency schedule))
            \<and> set (map (fst \<circ> snd) (completed_calls chunks maxConcurrency schedule)) = {..< length chunks}
            \<and> (\<forall>i < length chunks. \<exists>s.
                  (chunks ! i, i, Returns s) \<in> set (completed_calls chunks maxConcurrency schedule)
                  \<and> rs ! i =
                      Some \<lparr>content = content (chunks ! i), chunkIndex = chunkIndex (chunks ! i),
                            startChar = startChar (chunks ! i), endChar = endChar (chunks ! i),
                            totalChunks = totalChunks (chunks ! i), summary = s\<rparr>))
     \<and> (length chunks \<le> length schedule
          \<and> (\<forall>ev \<in> set (take (length chunks) schedule). is_success ev) \<longrightarrow>
          (\<exists>rs. generateChunkSummaries chunks maxConcurrency schedule = Some (Inr rs)))
     \<and> (\<forall>rs rs'. generateChunkSummaries chunks maxConcurrency schedule = Some (Inr rs)
            \<and> generateChunkSummaries chunks maxConcurrency' schedule' = Some (Inr rs') \<longrightarrow>
            length rs = length rs'
            \<and> (\<forall>i < length chunks. \<exists>r r'. rs ! i = Some r \<and> rs' ! i = Some r'
                   \<and> content r = content (chunks ! i) \<and> content r' = content (chunks ! i)
                   \<and> chunkIndex r = chunkIndex (chunks ! i)
                   \<and> chunkIndex r' = chunkIndex (chunks ! i)
                   \<and> startChar r = startChar (chunks ! i)
                   \<and> startChar r' = startChar (chunks ! i)
                   \<and> endChar r = endChar (chunks ! i) \<and> endChar r' = endChar (chunks ! i)
                   \<and> totalChunks r = totalChunks (chunks ! i)
                   \<and> totalChunks r' = totalChunks (chunks ! i)))"
proof -
  let ?p = "start_workers (nat (min maxConcurrency (int (length chunks)))) (initial_pool chunks)"
  let ?L = "completed_calls chunks maxConcurrency schedule"
  from started_pool [OF assms(1), of chunks]
  have inv: "pool_inv chunks ?p" and rem: "remaining ?p = length chunks" by simp_all
  have slot: "\<exists>s. (chunks ! i, i, Returns s) \<in> set (completed_calls chunks mc sched)
                  \<and> rs ! i =
                      Some \<lparr>content = content (chunks ! i), chunkIndex = chunkIndex (chunks ! i),
                            startChar = startChar (chunks ! i), endChar = endChar (chunks ! i),
                            totalChunks = totalChunks (chunks ! i), summary = s\<rparr>"
    if mc: "1 \<le> mc" and ret: "generateChunkSummaries chunks mc sched = Some (Inr rs)"
      and i: "i < length chunks" for mc :: int and sched rs i
  proof -
    note rc = returned_calls [OF mc ret]
    from started_pool [OF mc, of chunks]
    have pinv: "pool_inv chunks
        (start_workers (nat (min mc (int (length chunks)))) (initial_pool chunks))" by simp
    from rc i have "i \<in> set (map fst (map snd (completed_calls chunks mc sched)))" by simp
    then have "i \<in> (fst \<circ> snd) ` set (completed_calls chunks mc sched)" by simp
    then obtain x where x: "x \<in> set (completed_calls chunks mc sched)" "i = (fst \<circ> snd) x"
      by (rule imageE)
    obtain c j out where "x = (c, j, out)" by (cases x)
    with x have mem: "(c, i, out) \<in> set (completed_calls chunks mc sched)" by simp
    then have mem2: "(i, out) \<in> set (map snd (completed_calls chunks mc sched))" by force
    from call_log_genuine [OF pinv] mem have c: "c = chunks ! i"
      by (simp add: completed_calls_def)
    from rc mem2 obtain s where "out = Returns s" "rs ! i = Some (with_summary (chunks ! i) s)"
      by blast
    with mem c show ?thesis by (auto simp: with_summary_fields)
  qed
  have A: "\<forall>rs. generateChunkSummaries chunks maxConcurrency schedule = Some (Inr rs) \<longrightarrow>
            length rs = length chunks
            \<and> distinct (map (fst \<circ> snd) ?L)
            \<and> set (map (fst \<circ> snd) ?L) = {..< length chunks}
            \<and> (\<forall>i < length chunks. \<exists>s. (chunks ! i, i, Returns s) \<in> set ?L
                  \<and> rs ! i =
                      Some \<lparr>content = content (chunks ! i), chunkIndex = chunkIndex (chunks ! i),
                            startChar = startChar (chunks ! i), endChar = endChar (chunks ! i),
                            totalChunks = totalChunks (chunks ! i), summary = s\<rparr>)"
  proof (intro allI impI)
    fix rs assume ret: "generateChunkSummaries chunks maxConcurrency schedule = Some (Inr rs)"
    note rc = returned_calls [OF assms(1) ret]
    have "\<forall>i < length chunks. \<exists>s. (chunks ! i, i, Returns s) \<in> set ?L
                  \<and> rs ! i =
                      Some \<lparr>content = content (chunks ! i), chunkIndex = chunkIndex (chunks ! i),
                            startChar = startChar (chunks ! i), endChar = endChar (chunks ! i),
                            totalChunks = totalChunks (chunks ! i), summary = s\<rparr>"
      using slot [OF assms(1) ret] by blast
    with rc show "length rs = length chunks
            \<and> distinct (map (fst \<circ> snd) ?L)
            \<and> set (map (fst \<circ> snd) ?L) = {..< length chunks}
            \<and> (\<forall>i < length chunks. \<exists>s. (chunks ! i, i, Returns s) \<in> set ?L
                  \<and> rs ! i =
                      Some \<lparr>content = content (chunks ! i), chunkIndex = chunkIndex (chunks ! i),
                            startChar = startChar (chunks ! i), endChar = endChar (chunks ! i),
                            totalChunks = totalChunks (chunks ! i), summary = s\<rparr>)"
      by simp
  qed
  have B: "length chunks \<le> length schedule
          \<and> (\<forall>ev \<in> set (take (length chunks) schedule). is_success ev) \<longrightarrow>
          (\<exists>rs. generateChunkSummaries chunks maxConcurrency schedule = Some (Inr rs))"
  proof
    assume a: "length chunks \<le> length schedule
          \<and> (\<forall>ev \<in> set (take (length chunks) schedule). is_success ev)"
    from run_liveness [OF inv, of schedule] a rem
    obtain rs where "run_pool schedule ?p = Some (Inr rs)" by auto
    then show "\<exists>rs. generateChunkSummaries chunks maxConcurrency schedule = Some (Inr rs)"
      by (simp add: generateChunkSummaries_def)
  qed
  have C: "\<forall>rs rs'. generateChunkSummaries chunks maxConcurrency schedule = Some (Inr rs)
            \<and> generateChunkSummaries chunks maxConcurrency' schedule' = Some (Inr rs') \<longrightarrow>
            length rs = length rs'
            \<and> (\<forall>i < length chunks. \<exists>r r'. rs ! i = Some r \<and> rs' ! i = Some r'
                   \<and> content r = content (chunks ! i) \<and> content r' = content (chunks ! i)
                   \<and> chunkIndex r = chunkIndex (chunks ! i)
                   \<and> chunkIndex r' = chunkIndex (chunks ! i)
                   \<and> startChar r = startChar (chunks ! i)
                   \<and> startChar r' = startChar (chunks ! i)
                   \<and> endChar r = endChar (chunks ! i) \<and> endChar r' = endChar (chunks ! i)
                   \<and> totalChunks r = totalChunks (chunks ! i)
                   \<and> totalChunks r' = totalChunks (chunks ! i))"
  proof (intro allI impI)
    fix rs rs'
    assume "generateChunkSummaries chunks maxConcurrency schedule = Some (Inr rs)
            \<and> generateChunkSummaries chunks maxConcurrency' schedule' = Some (Inr rs')"
    then have r1: "generateChunkSummaries chunks maxConcurrency schedule = Some (Inr rs)"
      and r2: "generateChunkSummaries chunks maxConcurrency' schedule' = Some (Inr rs')"
      by simp_all
    have len: "length rs = length rs'"
      using returned_calls [OF assms(1) r1] returned_calls [OF assms(2) r2] by simp
    have "\<forall>i < length chunks. \<exists>r r'. rs ! i = Some r \<and> rs' ! i = Some r'
                   \<and> content r = content (chunks ! i) \<and> content r' = content (chunks ! i)
                   \<and> chunkIndex r = chunkIndex (chunks ! i)
                   \<and> chunkIndex r' = chunkIndex (chunks ! i)
                   \<and> startChar r = startChar (chunks ! i)
                   \<and> startChar r' = startChar (chunks ! i)
                   \<and> endChar r = endChar (chunks ! i) \<and> endChar r' = endChar (chunks ! i)
                   \<and> totalChunks r = totalChunks (chunks ! i)
                   \<and> totalChunks r' = totalChunks (chunks ! i)"
    proof (intro allI impI)
      fix i assume i: "i < length chunks"
      from slot [OF assms(1) r1 i] obtain s where
        a: "rs ! i = Some \<lparr>content = content (chunks ! i), chunkIndex = chunkIndex (chunks ! i),
                            startChar = startChar (chunks ! i), endChar = endChar (chunks ! i),
                            totalChunks = totalChunks (chunks ! i), summary = s\<rparr>" by blast
      from slot [OF assms(2) r2 i] obtain s' where
        b: "rs' ! i = Some \<lparr>content = content (chunks ! i), chunkIndex = chunkIndex (chunks ! i),
                            startChar = startChar (chunks ! i), endChar = endChar (chunks ! i),
                            totalChunks = totalChunks (chunks ! i), summary = s'\<rparr>" by blast
      show "\<exists>r r'. rs ! i = Some r \<and> rs' ! i = Some r'
                   \<and> content r = content (chunks ! i) \<and> content r' = content (chunks ! i)
                   \<and> chunkIndex r = chunkIndex (chunks ! i)
                   \<and> chunkIndex r' = chunkIndex (chunks ! i)
                   \<and> startChar r = startChar (chunks ! i)
                   \<and> startChar r' = startChar (chunks ! i)
                   \<and> endChar r = endChar (chunks ! i) \<and> endChar r' = endChar (chunks ! i)
                   \<and> totalChunks r = totalChunks (chunks ! i)
                   \<and> totalChunks r' = totalChunks (chunks ! i)"
        unfolding a b by simp
    qed
    with len show "length rs = length rs'
            \<and> (\<forall>i < length chunks. \<exists>r r'. rs ! i = Some r \<and> rs' ! i = Some r'
                   \<and> content r = content (chunks ! i) \<and> content r' = content (chunks ! i)
                   \<and> chunkIndex r = chunkIndex (chunks ! i)
                   \<and> chunkIndex r' = chunkIndex (chunks ! i)
                   \<and> startChar r = startChar (chunks ! i)
                   \<and> startChar r' = startChar (chunks ! i)
                   \<and> endChar r = endChar (chunks ! i) \<and> endChar r' = endChar (chunks ! i)
                   \<and> totalChunks r = totalChunks (chunks ! i)
                   \<and> totalChunks r' = totalChunks (chunks ! i))" by simp
  qed
  show ?thesis by (rule conjI [OF A conjI [OF B C]])
qed

theorem C9_slots_by_index_witness:
  "(1::int) \<le> 1 \<and> (1::int) \<le> 8
   \<and> generateChunkSummaries example_chunks 1
        [Completion 0 (Returns ''A''), Completion 0 (Returns ''B''), Completion 0 (Returns ''C'')]
      = Some (Inr
          [Some \<lparr>content = ''abcde'', chunkIndex = 0, startChar = 0, endChar = 5,
                 totalChunks = 3, summary = ''A''\<rparr>,
           Some \<lparr>content = ''efghi'', chunkIndex = 1, startChar = 4, endChar = 9,
                 totalChunks = 3, summary = ''B''\<rparr>,
           Some \<lparr>content = ''ijkl'', chunkIndex = 2, startChar = 8, endChar = 12,
                 totalChunks = 3, summary = ''C''\<rparr>])
   \<and> completed_calls example_chunks 8
        [Completion 2 (Returns ''x''), Completion 1 (Returns ''y''), Completion 0 (Returns ''z'')]
      = [(example_chunks ! 2, 2, Returns ''x''), (example_chunks ! 1, 1, Returns ''y''),
         (example_chunks ! 0, 0, Returns ''z'')]
   \<and> generateChunkSummaries example_chunks 8
        [Completion 2 (Returns ''x''), Completion 1 (Returns ''y''), Completion 0 (Returns ''z'')]
      = Some (Inr
          [Some \<lparr>content = ''abcde'', chunkIndex = 0, startChar = 0, endChar = 5,
                 totalChunks = 3, summary = ''z''\<rparr>,
           Some \<lparr>content = ''efghi'', chunkIndex = 1, startChar = 4, endChar = 9,
                 totalChunks = 3, summary = ''y''\<rparr>,
           Some \<lparr>content = ''ijkl'', chunkIndex = 2, startChar = 8, endChar = 12,
                 totalChunks = 3, summary = ''x''\<rparr>])
   \<and> distinct (map (fst \<circ> snd) (completed_calls example_chunks 8
        [Completion 2 (Returns ''x''), Completion 1 (Returns ''y''), Completion 0 (Returns ''z'')]))"
proof -
  let ?s8 = "[Completion 2 (Returns ''x''), Completion 1 (Returns ''y''), Completion 0 (Returns ''z'')]"
  have h: "(1::int) \<le> 1" "(1::int) \<le> 8" by simp_all
  have r1: "generateChunkSummaries example_chunks 1
        [Completion 0 (Returns ''A''), Completion 0 (Returns ''B''), Completion 0 (Returns ''C'')]
      = Some (Inr
          [Some \<lparr>content = ''abcde'', chunkIndex = 0, startChar = 0, endChar = 5,
                 totalChunks = 3, summary = ''A''\<rparr>,
           Some \<lparr>content = ''efghi'', chunkIndex = 1, startChar = 4, endChar = 9,
                 totalChunks = 3, summary = ''B''\<rparr>,
           Some \<lparr>content = ''ijkl'', chunkIndex = 2, startChar = 8, endChar = 12,
                 totalChunks = 3, summary = ''C''\<rparr>])"
    by code_simp
  have c8: "completed_calls example_chunks 8 ?s8
      = [(example_chunks ! 2, 2, Returns ''x''), (example_chunks ! 1, 1, Returns ''y''),
         (example_chunks ! 0, 0, Returns ''z'')]"
    by code_simp
  have r8: "generateChunkSummaries example_chunks 8 ?s8
      = Some (Inr
          [Some \<lparr>content = ''abcde'', chunkIndex = 0, startChar = 0, endChar = 5,
                 totalChunks = 3, summary = ''z''\<rparr>,
           Some \<lparr>content = ''efghi'', chunkIndex = 1, startChar = 4, endChar = 9,
                 totalChunks = 3, summary = ''y''\<rparr>,
           Some \<lparr>content = ''ijkl'', chunkIndex = 2, startChar = 8, endChar = 12,
                 totalChunks = 3, summary = ''x''\<rparr>])"
    by code_simp
  from C9_slots_by_index [OF h(2) h(1), of example_chunks ?s8] r8
  have "distinct (map (fst \<circ> snd) (completed_calls example_chunks 8 ?s8))" by blast
  with h r1 c8 r8 show ?thesis by blast
qed

text \<open>
  C10. Whatever was extracted, the comparison of a field reports a match when the ground
  truth string of that field is empty.
\<close>

theorem C10_empty_ground_truth_matches:
  "matches (compareNumerical pf extracted [] tolerance) = True
   \<and> matches (compareNumerical_default pf extracted []) = True"
  by (simp add: compareNumerical_def compareNumerical_default_def)

theorem C10_empty_ground_truth_matches_witness:
  "matches (compareNumerical (\<lambda>s. None) ''not a number'' [] 0.1) = True
   \<and> compareNumerical_default (\<lambda>s. None) ''512'' []
       = \<lparr>matches = True, error_field = Null\<rparr>"
  using C10_empty_ground_truth_matches [of "\<lambda>s. None" "''not a number''" "0.1"]
  by (simp add: compareNumerical_def compareNumerical_default_def)

end
